theory Spec2Isabelle
  imports Main
begin

section \<open>Python strings and the regular expressions of extract\_and\_build.py\<close>

text \<open>
  A Python \<open>str\<close> is a sequence of Unicode code points; it is modelled as a list of
  natural numbers, one per code point (U+00A0 is 160, the en dash U+2013 is 8211).
  ASCII literals of the source are converted with \<open>ustr_of\<close>.
\<close>

type_synonym ustr = "nat list"

definition ustr_of :: "string \<Rightarrow> ustr" where
  "ustr_of s = map of_char s"

text \<open>
  The whitespace class. For a \<open>str\<close> pattern \<open>\s\<close> is the set of characters for which
  \<open>str.isspace\<close> holds, and \<open>str.strip()\<close> without argument strips the same set:
  U+0009..U+000D, U+001C..U+001F, U+0020, U+0085, U+00A0, U+1680, U+2000..U+200A,
  U+2028, U+2029, U+202F, U+205F and U+3000.
\<close>

definition isspace :: "nat \<Rightarrow> bool" where
  "isspace c =
     ((9 \<le> c \<and> c \<le> 13) \<or> (28 \<le> c \<and> c \<le> 32) \<or> c = 133 \<or> c = 160 \<or> c = 5760 \<or>
      (8192 \<le> c \<and> c \<le> 8202) \<or> c = 8232 \<or> c = 8233 \<or> c = 8239 \<or> c = 8287 \<or>
      c = 12288)"

text \<open>
  The digit class \<open>\d\<close> of a \<open>str\<close> pattern is every character of Unicode category Nd.
  The ASCII digits are written out; the table of the other decimal digits belongs to
  the interpreter's Unicode database and is the parameter \<open>nd\<close>.
\<close>

definition isdigit :: "(nat \<Rightarrow> bool) \<Rightarrow> nat \<Rightarrow> bool" where
  "isdigit nd c = ((48 \<le> c \<and> c \<le> 57) \<or> nd c)"

text \<open>
  The three patterns of the source are sequences of single-character classes, each
  taken once, or under a greedy \<open>*\<close> or \<open>+\<close>. \<open>rmatch\<close> is the backtracking matcher
  anchored at the start of the string: it returns the rest of the string after the
  first match in the order of preference of \<open>re\<close> (longest repetition first), or \<open>None\<close>.
\<close>

datatype quant = One | Star | Plus

type_synonym item = "(nat \<Rightarrow> bool) \<times> quant"

function rmatch :: "item list \<Rightarrow> ustr \<Rightarrow> ustr option"
  and rgreedy :: "(nat \<Rightarrow> bool) \<Rightarrow> item list \<Rightarrow> ustr \<Rightarrow> ustr option" where
  "rmatch [] s = Some s"
| "rmatch ((p, One) # its) [] = None"
| "rmatch ((p, One) # its) (c # cs) = (if p c then rmatch its cs else None)"
| "rmatch ((p, Star) # its) s = rgreedy p its s"
| "rmatch ((p, Plus) # its) [] = None"
| "rmatch ((p, Plus) # its) (c # cs) = (if p c then rgreedy p its cs else None)"
| "rgreedy p its [] = rmatch its []"
| "rgreedy p its (c # cs) =
     (if p c
      then (case rgreedy p its cs of Some r \<Rightarrow> Some r | None \<Rightarrow> rmatch its (c # cs))
      else rmatch its (c # cs))"
  by pat_completeness auto
termination
  by (relation "measure (\<lambda>x. case x of
         Inl (its, s) \<Rightarrow> 2 * length its + 2 * length s
       | Inr (p, its, s) \<Rightarrow> 2 * length its + 2 * length s + 1)") auto

text \<open>\<open>re.search(pat, s)\<close> as a truth value: the pattern matches at some position.\<close>

fun re_search :: "item list \<Rightarrow> ustr \<Rightarrow> bool" where
  "re_search pat [] = (rmatch pat [] \<noteq> None)"
| "re_search pat (c # cs) = (rmatch pat (c # cs) \<noteq> None \<or> re_search pat cs)"

text \<open>
  \<open>re.sub(pat, repl, s)\<close> for a literal replacement: the string is scanned from the
  left, each match is replaced and the scan goes on behind it; a character at which
  the pattern does not match is copied. A match that consumes nothing is replaced and
  the next character copied (no pattern of the source can match the empty string).
\<close>

fun re_sub :: "item list \<Rightarrow> ustr \<Rightarrow> ustr \<Rightarrow> ustr" where
  "re_sub pat repl [] = (case rmatch pat [] of Some r \<Rightarrow> repl | None \<Rightarrow> [])"
| "re_sub pat repl (c # cs) =
     (case rmatch pat (c # cs) of
        None \<Rightarrow> c # re_sub pat repl cs
      | Some r \<Rightarrow>
          if length r < Suc (length cs) then repl @ re_sub pat repl r
          else repl @ c # re_sub pat repl cs)"

text \<open>\<open>r"\[\s*[^]]+\]"\<close>\<close>

definition CITE_RE :: "item list" where
  "CITE_RE = [(\<lambda>c. c = 91, One), (isspace, Star), (\<lambda>c. c \<noteq> 93, Plus), (\<lambda>c. c = 93, One)]"

text \<open>\<open>r"\s+"\<close>\<close>

definition SPACES_RE :: "item list" where
  "SPACES_RE = [(isspace, Plus)]"

text \<open>
  \<open>r"\d+\s*[D-]\s*\d+"\<close>, where \<open>D\<close> stands for the en dash of the source: the class holds
  the en dash (U+2013, 8211) and the hyphen (45).
\<close>

definition SCORE_RE :: "(nat \<Rightarrow> bool) \<Rightarrow> item list" where
  "SCORE_RE nd =
     [(isdigit nd, Plus), (isspace, Star), (\<lambda>c. c = 8211 \<or> c = 45, One),
      (isspace, Star), (isdigit nd, Plus)]"

text \<open>\<open>txt.replace(old, new)\<close> for one-character \<open>old\<close> and \<open>new\<close>.\<close>

definition replace_char :: "nat \<Rightarrow> nat \<Rightarrow> ustr \<Rightarrow> ustr" where
  "replace_char old new s = map (\<lambda>c. if c = old then new else c) s"

text \<open>\<open>txt.strip()\<close>\<close>

definition strip :: "ustr \<Rightarrow> ustr" where
  "strip s = rev (dropWhile isspace (rev (dropWhile isspace s)))"

text \<open>\<open>clean_text\<close>; the argument is \<open>None\<close> or a string.\<close>

fun clean_text :: "ustr option \<Rightarrow> ustr" where
  "clean_text None = []"
| "clean_text (Some txt) =
     strip (re_sub SPACES_RE [32] (replace_char 160 32 (re_sub CITE_RE [] txt)))"

text \<open>\<open>join_and_clean\<close>: an empty list is falsy.\<close>

definition join_and_clean :: "ustr list \<Rightarrow> ustr" where
  "join_and_clean nodes = (if nodes \<noteq> [] then clean_text (Some (concat nodes)) else [])"


section \<open>The parsed document and the XPath queries\<close>

text \<open>
  The tree \<open>html.fromstring\<close> returns, in the XPath data model: an element has a tag,
  attributes and child nodes; the other nodes are text nodes and comments. Tags and
  attribute names are ASCII (the HTML parser lower-cases them).
\<close>

datatype xnode = Elem string "(string \<times> ustr) list" "xnode list" | Txt ustr | Cmt ustr

fun children :: "xnode \<Rightarrow> xnode list" where
  "children (Elem t a ks) = ks"
| "children (Txt s) = []"
| "children (Cmt s) = []"

text \<open>The name test \<open>self::t\<close>.\<close>

fun is_elem :: "string \<Rightarrow> xnode \<Rightarrow> bool" where
  "is_elem t (Elem t' a ks) = (t' = t)"
| "is_elem t (Txt s) = False"
| "is_elem t (Cmt s) = False"

text \<open>\<open>string(@name)\<close>: the attribute's value, the empty string when it is absent.\<close>

fun attr_string :: "string \<Rightarrow> xnode \<Rightarrow> ustr" where
  "attr_string name (Elem t a ks) = (case map_of a name of Some v \<Rightarrow> v | None \<Rightarrow> [])"
| "attr_string name (Txt s) = []"
| "attr_string name (Cmt s) = []"

text \<open>
  The text nodes of a subtree in document order: for an element \<open>e\<close> this is the
  node-set of \<open>e//text()\<close>, and its concatenation is the string-value of \<open>e\<close>.
\<close>

fun texts :: "xnode \<Rightarrow> ustr list" where
  "texts (Elem t a ks) = concat (map texts ks)"
| "texts (Txt s) = [s]"
| "texts (Cmt s) = []"

definition string_value :: "xnode \<Rightarrow> ustr" where
  "string_value n = concat (texts n)"

text \<open>The nodes of a subtree in document order, the root of the subtree first.\<close>

fun subtree :: "xnode \<Rightarrow> xnode list" where
  "subtree (Elem t a ks) = Elem t a ks # concat (map subtree ks)"
| "subtree (Txt s) = [Txt s]"
| "subtree (Cmt s) = [Cmt s]"

definition descendants :: "xnode \<Rightarrow> xnode list" where
  "descendants n = concat (map subtree (children n))"

text \<open>
  The same walk, each node with its ancestors (the parent first). \<open>anc\<close> holds the
  ancestors of the subtree's root.
\<close>

fun located :: "xnode list \<Rightarrow> xnode \<Rightarrow> (xnode list \<times> xnode) list" where
  "located anc (Elem t a ks) =
     (anc, Elem t a ks) # concat (map (located (Elem t a ks # anc)) ks)"
| "located anc (Txt s) = [(anc, Txt s)]"
| "located anc (Cmt s) = [(anc, Cmt s)]"

text \<open>The XPath function \<open>contains(a, b)\<close>: \<open>b\<close> is a substring of \<open>a\<close>.\<close>

fun starts_with :: "ustr \<Rightarrow> ustr \<Rightarrow> bool" where
  "starts_with s [] = True"
| "starts_with [] (p # ps) = False"
| "starts_with (c # cs) (p # ps) = (c = p \<and> starts_with cs ps)"

fun contains :: "ustr \<Rightarrow> ustr \<Rightarrow> bool" where
  "contains [] b = (b = [])"
| "contains (c # cs) b = (starts_with (c # cs) b \<or> contains cs b)"

text \<open>
  A positional predicate on a node list in document order: the nodes whose position,
  counted from 1, satisfies \<open>P\<close>. \<open>[k]\<close> is \<open>P = (\<lambda>i. i = k)\<close>.
\<close>

fun xpath_pos_from :: "nat \<Rightarrow> (nat \<Rightarrow> bool) \<Rightarrow> 'a list \<Rightarrow> 'a list" where
  "xpath_pos_from i P [] = []"
| "xpath_pos_from i P (x # xs) = (if P i then [x] else []) @ xpath_pos_from (Suc i) P xs"

definition xpath_pos :: "(nat \<Rightarrow> bool) \<Rightarrow> 'a list \<Rightarrow> 'a list" where
  "xpath_pos P xs = xpath_pos_from 1 P xs"

text \<open>
  \<open>TABLE_XPATH\<close>: the elements \<open>table\<close> of the document whose class attribute contains
  \<open>wikitable\<close> and that have a descendant \<open>caption\<close> whose string-value contains the
  marker phrase.
\<close>

definition is_target_table :: "xnode \<Rightarrow> bool" where
  "is_target_table n =
     (is_elem ''table'' n \<and> contains (attr_string ''class'' n) (ustr_of ''wikitable'') \<and>
      list_ex (\<lambda>c. is_elem ''caption'' c \<and>
                    contains (string_value c) (ustr_of ''List of FIFA World Cup finals''))
        (descendants n))"

definition TABLE_XPATH :: "xnode \<Rightarrow> xnode list" where
  "TABLE_XPATH doc = filter is_target_table (subtree doc)"

text \<open>
  \<open>TABLE_XPATH/tbody/tr\<close>: a node-set comes in document order, so the result is the
  walk of the document restricted to the elements \<open>tr\<close> whose parent is a \<open>tbody\<close> whose
  parent is a table selected by \<open>TABLE_XPATH\<close>.
\<close>

fun tbody_of_target :: "xnode list \<Rightarrow> bool" where
  "tbody_of_target (p # g # anc) = (is_elem ''tbody'' p \<and> is_target_table g)"
| "tbody_of_target anc = False"

definition TABLE_ROWS :: "xnode \<Rightarrow> xnode list" where
  "TABLE_ROWS doc =
     map snd (filter (\<lambda>(anc, n). is_elem ''tr'' n \<and> tbody_of_target anc) (located [] doc))"

text \<open>\<open>(TABLE_XPATH/tbody/tr)[position()>1 and position()<=11]\<close>\<close>

definition ROWS_1_TO_10_XPATH :: "xnode \<Rightarrow> xnode list" where
  "ROWS_1_TO_10_XPATH doc = xpath_pos (\<lambda>i. 1 < i \<and> i \<le> 11) (TABLE_ROWS doc)"

text \<open>The row-relative queries, each followed by \<open>//text()\<close> as \<open>scrape_first10\<close> calls them.\<close>

definition YEAR_REL_XPATH :: "xnode \<Rightarrow> ustr list" where
  "YEAR_REL_XPATH tr =
     concat (map texts (xpath_pos (\<lambda>i. i = 1)
       (filter (\<lambda>k. is_elem ''th'' k \<or> is_elem ''td'' k) (children tr))))"

definition WINNER_REL_XPATH :: "xnode \<Rightarrow> ustr list" where
  "WINNER_REL_XPATH tr =
     concat (map texts (xpath_pos (\<lambda>i. i = 1) (filter (is_elem ''td'') (children tr))))"

definition SCORE_REL_XPATH :: "xnode \<Rightarrow> ustr list" where
  "SCORE_REL_XPATH tr =
     concat (map texts (xpath_pos (\<lambda>i. i = 2) (filter (is_elem ''td'') (children tr))))"

definition RUNNERSUP_REL_XPATH :: "xnode \<Rightarrow> ustr list" where
  "RUNNERSUP_REL_XPATH tr =
     concat (map texts (xpath_pos (\<lambda>i. i = 3) (filter (is_elem ''td'') (children tr))))"

section \<open>scrape\_first10\<close>

text \<open>
  Exceptions are values. \<open>FetchError\<close> stands for whatever \<open>requests.get\<close>,
  \<open>raise_for_status\<close> or the parser raise; the other constructors are the exceptions
  the program and the file system calls raise, with the path they name.
\<close>

type_synonym path = "string list"

datatype error =
    FetchError
  | RuntimeError string
  | FileExistsError path
  | FileNotFoundError path
  | NotADirectoryError path
  | IsADirectoryError path

text \<open>
  What the program prints: the warning of the loop carries the year and the score it
  formats into the line; \<open>Generated\<close> and \<open>Instructions\<close> are the closing lines of \<open>main\<close>.
\<close>

datatype console_line = Warn ustr ustr | Generated path path | Instructions

definition HEADER :: "ustr list" where
  "HEADER = [ustr_of ''year'', ustr_of ''winner'', ustr_of ''score'', ustr_of ''runners_up'']"

text \<open>The \<open>for\<close> loop over the rows, on the pair of the lines printed so far and \<open>values\<close>.\<close>

fun scrape_loop ::
  "(nat \<Rightarrow> bool) \<Rightarrow> xnode list \<Rightarrow> console_line list \<times> ustr list list \<Rightarrow>
   console_line list \<times> ustr list list" where
  "scrape_loop nd [] st = st"
| "scrape_loop nd (tr # trs) (out, values) =
     (let year = join_and_clean (YEAR_REL_XPATH tr);
          winner = join_and_clean (WINNER_REL_XPATH tr);
          score = join_and_clean (SCORE_REL_XPATH tr);
          runnersup = join_and_clean (RUNNERSUP_REL_XPATH tr);
          out' = (if \<not> re_search (SCORE_RE nd) score then out @ [Warn year score] else out)
      in scrape_loop nd trs (out', values @ [[year, winner, score, runnersup]]))"

text \<open>
  \<open>scrape_first10\<close>. The parameter \<open>fetch\<close> is the network and the parser: the document
  for a URL, or the exception of the first three lines of the function.
\<close>

definition scrape_first10 ::
  "(nat \<Rightarrow> bool) \<Rightarrow> (ustr \<Rightarrow> error + xnode) \<Rightarrow> ustr \<Rightarrow>
   error + (console_line list \<times> ustr list list)" where
  "scrape_first10 nd fetch url =
     (case fetch url of
        Inl e \<Rightarrow> Inl e
      | Inr doc \<Rightarrow>
          (let rows = ROWS_1_TO_10_XPATH doc
           in if rows = []
              then Inl (RuntimeError
                ''Could not locate finals table rows with XPath. Page structure may have changed.'')
              else Inr (scrape_loop nd rows ([], [HEADER]))))"

section \<open>main and the file system\<close>

text \<open>
  A JSON document, as \<open>json.dump\<close> is given it; a file holds the document written to
  it. A path is the list of its components below the working directory, which is the
  empty path and always exists. The file system raises for a missing directory and
  for a file or a directory in the way; permissions, a full disk and strings that
  UTF-8 cannot encode (the parser produces none) are outside the model.
\<close>

datatype json = JString ustr | JArray "json list" | JObject "(string \<times> json) list"

record fs =
  dirs :: "path set"
  files :: "path \<rightharpoonup> json"

text \<open>
  \<open>os.makedirs(p, exist_ok=True)\<close>, component by component below \<open>base\<close>: an existing
  directory is kept, a file in the way raises.
\<close>

fun makedirs :: "path \<Rightarrow> path \<Rightarrow> fs \<Rightarrow> error + fs" where
  "makedirs base [] s = Inr s"
| "makedirs base (c # cs) s =
     (if files s (base @ [c]) \<noteq> None
      then Inl (if cs = [] then FileExistsError (base @ [c]) else NotADirectoryError (base @ [c]))
      else makedirs (base @ [c]) cs (s\<lparr>dirs := insert (base @ [c]) (dirs s)\<rparr>))"

text \<open>
  \<open>with open(p, "w") as f: json.dump(doc, f)\<close>: the directory of \<open>p\<close> must exist and \<open>p\<close>
  must not be a directory; the file is created or truncated and holds \<open>doc\<close>.
\<close>

definition write_json :: "path \<Rightarrow> json \<Rightarrow> fs \<Rightarrow> error + fs" where
  "write_json p doc s =
     (if p = [] \<or> p \<in> dirs s then Inl (IsADirectoryError p)
      else if files s (butlast p) \<noteq> None then Inl (NotADirectoryError p)
      else if butlast p \<noteq> [] \<and> butlast p \<notin> dirs s then Inl (FileNotFoundError p)
      else Inr (s\<lparr>files := (files s)(p \<mapsto> doc)\<rparr>))"

definition grid_json :: "ustr list list \<Rightarrow> json" where
  "grid_json values = JArray (map (\<lambda>row. JArray (map JString row)) values)"

definition body_json :: "ustr \<Rightarrow> ustr list list \<Rightarrow> json" where
  "body_json rng values =
     JObject [(''range'', JString rng), (''majorDimension'', JString (ustr_of ''ROWS'')),
              (''values'', grid_json values)]"

text \<open>The parsed command line.\<close>

record args =
  arg_url :: ustr
  arg_range :: ustr
  values_out :: path
  body_out :: path

text \<open>
  \<open>main\<close>, from the parsed arguments on: the result, the file system it leaves and the
  lines printed.
\<close>

definition main ::
  "(nat \<Rightarrow> bool) \<Rightarrow> (ustr \<Rightarrow> error + xnode) \<Rightarrow> args \<Rightarrow> fs \<Rightarrow>
   (error + unit) \<times> fs \<times> console_line list" where
  "main nd fetch a s =
     (case scrape_first10 nd fetch (arg_url a) of
        Inl e \<Rightarrow> (Inl e, s, [])
      | Inr (out, values) \<Rightarrow>
          (case makedirs [] [''data''] s of
             Inl e \<Rightarrow> (Inl e, s, out)
           | Inr s1 \<Rightarrow>
               (case write_json (values_out a) (grid_json values) s1 of
                  Inl e \<Rightarrow> (Inl e, s1, out)
                | Inr s2 \<Rightarrow>
                    (case write_json (body_out a) (body_json (arg_range a) values) s2 of
                       Inl e \<Rightarrow> (Inl e, s2, out)
                     | Inr s3 \<Rightarrow>
                         (Inr (), s3, out @ [Generated (values_out a) (body_out a), Instructions])))))"


section \<open>Notions used to state and prove the properties\<close>

text \<open>
  What \<open>CITE_RE\<close> does behind an opening bracket: the rest of the string after the
  first closing bracket, provided at least one other character stands before it.
\<close>

definition cite_tail :: "ustr \<Rightarrow> ustr option" where
  "cite_tail s =
     (case s of
        [] \<Rightarrow> None
      | d # ds \<Rightarrow>
          if d = 93 then None
          else (case dropWhile (\<lambda>x. x \<noteq> 93) ds of [] \<Rightarrow> None | _ # r \<Rightarrow> Some r))"

text \<open>
  A string is free of citations when every opening bracket is directly followed by a
  closing bracket or has no closing bracket behind it.
\<close>

fun cite_free :: "ustr \<Rightarrow> bool" where
  "cite_free [] = True"
| "cite_free (c # cs) = ((c = 91 \<longrightarrow> 93 \<notin> set cs \<or> (\<exists>t. cs = 93 # t)) \<and> cite_free cs)"

text \<open>
  Whitespace is normal when every whitespace character is a space (32) and is not
  followed by another whitespace character.
\<close>

fun ws_normal :: "ustr \<Rightarrow> bool" where
  "ws_normal [] = True"
| "ws_normal (c # cs) =
     ((isspace c \<longrightarrow> c = 32 \<and> (cs = [] \<or> \<not> isspace (hd cs))) \<and> ws_normal cs)"

text \<open>The strings a pattern denotes, by the meaning of its items and not by the matcher.\<close>

fun matches :: "item list \<Rightarrow> ustr \<Rightarrow> bool" where
  "matches [] m = (m = [])"
| "matches ((p, One) # its) m = (\<exists>c r. m = c # r \<and> p c \<and> matches its r)"
| "matches ((p, Star) # its) m = (\<exists>a b. m = a @ b \<and> (\<forall>c\<in>set a. p c) \<and> matches its b)"
| "matches ((p, Plus) # its) m =
     (\<exists>a b. m = a @ b \<and> a \<noteq> [] \<and> (\<forall>c\<in>set a. p c) \<and> matches its b)"

text \<open>
  A prefix of the string is denoted by the pattern; and the same behind a run of
  characters of the class \<open>p\<close>.
\<close>

definition prefix_match :: "item list \<Rightarrow> ustr \<Rightarrow> bool" where
  "prefix_match its s = (\<exists>m r. s = m @ r \<and> matches its m)"

definition run_match :: "(nat \<Rightarrow> bool) \<Rightarrow> item list \<Rightarrow> ustr \<Rightarrow> bool" where
  "run_match p its s = (\<exists>a t. s = a @ t \<and> (\<forall>c\<in>set a. p c) \<and> prefix_match its t)"

text \<open>
  The shape of a score in the words of the specification: somewhere in the string,
  digits, optional whitespace, an en dash or a hyphen, optional whitespace, digits.
\<close>

definition score_shaped :: "(nat \<Rightarrow> bool) \<Rightarrow> ustr \<Rightarrow> bool" where
  "score_shaped nd s =
     (\<exists>pre d1 w1 dash w2 d2 post.
        s = pre @ d1 @ w1 @ [dash] @ w2 @ d2 @ post \<and>
        d1 \<noteq> [] \<and> (\<forall>c\<in>set d1. isdigit nd c) \<and> (\<forall>c\<in>set w1. isspace c) \<and>
        (dash = 8211 \<or> dash = 45) \<and>
        (\<forall>c\<in>set w2. isspace c) \<and> d2 \<noteq> [] \<and> (\<forall>c\<in>set d2. isdigit nd c))"

text \<open>The exception \<open>scrape_first10\<close> raises when the row query selects nothing.\<close>

definition rows_not_found :: error where
  "rows_not_found =
     RuntimeError
       ''Could not locate finals table rows with XPath. Page structure may have changed.''"

text \<open>The four fields the loop reads from a row, and the row it appends.\<close>

definition year_of :: "xnode \<Rightarrow> ustr" where
  "year_of tr = join_and_clean (YEAR_REL_XPATH tr)"

definition winner_of :: "xnode \<Rightarrow> ustr" where
  "winner_of tr = join_and_clean (WINNER_REL_XPATH tr)"

definition score_of :: "xnode \<Rightarrow> ustr" where
  "score_of tr = join_and_clean (SCORE_REL_XPATH tr)"

definition runnersup_of :: "xnode \<Rightarrow> ustr" where
  "runnersup_of tr = join_and_clean (RUNNERSUP_REL_XPATH tr)"

definition row_of :: "xnode \<Rightarrow> ustr list" where
  "row_of tr = [year_of tr, winner_of tr, score_of tr, runnersup_of tr]"

text \<open>The first cell of a row: its first child that is a \<open>th\<close> or a \<open>td\<close>.\<close>

definition first_cell :: "xnode \<Rightarrow> xnode option" where
  "first_cell tr = find (\<lambda>k. is_elem ''th'' k \<or> is_elem ''td'' k) (children tr)"

text \<open>
  The rows of \<open>TABLE_ROWS\<close> below a node, by a walk that only remembers whether the
  parent is a selected table (\<open>b1\<close>) and whether the parent is a \<open>tbody\<close> of one (\<open>b2\<close>).
\<close>

fun rows_walk :: "bool \<Rightarrow> bool \<Rightarrow> xnode \<Rightarrow> xnode list" where
  "rows_walk b1 b2 (Elem t a ks) =
     (if b2 \<and> t = ''tr'' then [Elem t a ks] else []) @
     concat (map (rows_walk (is_target_table (Elem t a ks)) (b1 \<and> t = ''tbody'')) ks)"
| "rows_walk b1 b2 (Txt s) = []"
| "rows_walk b1 b2 (Cmt s) = []"

text \<open>The body rows of one table: the \<open>tr\<close> children of its \<open>tbody\<close> children.\<close>

definition table_body_rows :: "xnode \<Rightarrow> xnode list" where
  "table_body_rows t =
     concat (map (\<lambda>b. filter (is_elem ''tr'') (children b))
       (filter (is_elem ''tbody'') (children t)))"

section \<open>Fixture documents\<close>

text \<open>
  A page with one table of class \<open>wikitable\<close> under the caption of the finals list; its
  body rows are the argument. \<open>mk_row\<close> is a row of the list: the year in a header cell,
  then three data cells, the score with a citation marker behind it.
\<close>

definition mk_row :: "ustr \<Rightarrow> ustr \<Rightarrow> ustr \<Rightarrow> ustr \<Rightarrow> xnode" where
  "mk_row y w sc r =
     Elem ''tr'' []
       [Elem ''th'' [] [Elem ''a'' [] [Txt y]],
        Elem ''td'' [] [Txt w],
        Elem ''td'' [] [Txt sc, Elem ''sup'' [] [Txt (ustr_of ''[1]'')]],
        Elem ''td'' [] [Txt r]]"

definition header_row :: xnode where
  "header_row =
     Elem ''tr'' []
       [Elem ''th'' [] [Txt (ustr_of ''Year'')], Elem ''th'' [] [Txt (ustr_of ''Winners'')],
        Elem ''th'' [] [Txt (ustr_of ''Score'')], Elem ''th'' [] [Txt (ustr_of ''Runners-up'')]]"

definition finals_table :: "xnode list \<Rightarrow> xnode" where
  "finals_table rows =
     Elem ''table'' [(''class'', ustr_of ''wikitable sortable'')]
       [Elem ''caption'' [] [Txt (ustr_of ''List of FIFA World Cup finals'')],
        Elem ''tbody'' [] rows]"

definition finals_page :: "xnode list \<Rightarrow> xnode" where
  "finals_page rows = Elem ''html'' [] [Elem ''body'' [] [finals_table rows]]"

text \<open>A page without any table.\<close>

definition plain_page :: xnode where
  "plain_page = Elem ''html'' [] [Elem ''body'' [] [Elem ''p'' [] [Txt (ustr_of ''moved'')]]]"

text \<open>Eleven data rows; the scores of the first two use the en dash (8211).\<close>

definition r1930 :: xnode where
  "r1930 = mk_row (ustr_of ''1930'') (ustr_of ''Uruguay'') [52, 8211, 50] (ustr_of ''Argentina'')"

definition r1934 :: xnode where
  "r1934 = mk_row (ustr_of ''1934'') (ustr_of ''Italy'') [50, 8211, 49] (ustr_of ''Czechoslovakia'')"

definition r1938 :: xnode where
  "r1938 = mk_row (ustr_of ''1938'') (ustr_of ''Italy'') (ustr_of ''4-2'') (ustr_of ''Hungary'')"

definition r1950 :: xnode where
  "r1950 = mk_row (ustr_of ''1950'') (ustr_of ''Uruguay'') (ustr_of ''TBD'') (ustr_of ''Brazil'')"

definition r1954 :: xnode where
  "r1954 = mk_row (ustr_of ''1954'') (ustr_of ''West Germany'') (ustr_of ''3-2'') (ustr_of ''Hungary'')"

definition r1958 :: xnode where
  "r1958 = mk_row (ustr_of ''1958'') (ustr_of ''Brazil'') (ustr_of ''5-2'') (ustr_of ''Sweden'')"

definition r1962 :: xnode where
  "r1962 = mk_row (ustr_of ''1962'') (ustr_of ''Brazil'') (ustr_of ''3-1'') (ustr_of ''Czechoslovakia'')"

definition r1966 :: xnode where
  "r1966 = mk_row (ustr_of ''1966'') (ustr_of ''England'') (ustr_of ''4-2'') (ustr_of ''West Germany'')"

definition r1970 :: xnode where
  "r1970 = mk_row (ustr_of ''1970'') (ustr_of ''Brazil'') (ustr_of ''4-1'') (ustr_of ''Italy'')"

definition r1974 :: xnode where
  "r1974 = mk_row (ustr_of ''1974'') (ustr_of ''West Germany'') (ustr_of ''2-1'') (ustr_of ''Netherlands'')"

definition r1978 :: xnode where
  "r1978 = mk_row (ustr_of ''1978'') (ustr_of ''Argentina'') (ustr_of ''3-1'') (ustr_of ''Netherlands'')"

text \<open>A row whose first cell is a data cell.\<close>

definition td_row :: xnode where
  "td_row =
     Elem ''tr'' []
       [Elem ''td'' [] [Txt (ustr_of ''1930'')], Elem ''td'' [] [Txt (ustr_of ''Uruguay'')],
        Elem ''td'' [] [Txt (ustr_of ''4-2'')], Elem ''td'' [] [Txt (ustr_of ''Argentina'')]]"

text \<open>
  Three pages: a header and two data rows; the same with a score that is not a score;
  and a header with eleven data rows.
\<close>

definition short_page :: xnode where
  "short_page = finals_page [header_row, r1930, r1934]"

definition mixed_page :: xnode where
  "mixed_page = finals_page [header_row, r1930, r1950]"

definition full_page :: xnode where
  "full_page =
     finals_page [header_row, r1930, r1934, r1938, r1950, r1954, r1958, r1962, r1966, r1970,
                  r1974, r1978]"

text \<open>The network of the fixtures: every URL gives the page.\<close>

definition serve :: "xnode \<Rightarrow> ustr \<Rightarrow> error + xnode" where
  "serve page url = Inr page"

text \<open>No decimal digit beyond ASCII.\<close>

definition ascii_only :: "nat \<Rightarrow> bool" where
  "ascii_only c = False"

text \<open>An empty working directory, and the default and a custom command line.\<close>

definition empty_fs :: fs where
  "empty_fs = \<lparr>dirs = {}, files = Map.empty\<rparr>"

definition default_args :: args where
  "default_args =
     \<lparr>arg_url = ustr_of ''https://en.wikipedia.org/wiki/List_of_FIFA_World_Cup_finals'',
      arg_range = ustr_of ''Sheet1!A:D'',
      values_out = [''data'', ''values.json''],
      body_out = [''data'', ''append_body.json'']\<rparr>"

definition custom_args :: args where
  "custom_args = default_args\<lparr>values_out := [''out'', ''values.json'']\<rparr>"

section \<open>The text normaliser\<close>

lemma isspace_simps [simp]: "\<not> isspace 91" "\<not> isspace 93" "isspace 32" "isspace 160"
  by (simp_all add: isspace_def)

lemma rgreedy_close:
  "rgreedy (\<lambda>c. c \<noteq> 93) [(\<lambda>c. c = 93, One)] s =
     (case dropWhile (\<lambda>x. x \<noteq> 93) s of [] \<Rightarrow> None | _ # r \<Rightarrow> Some r)"
  by (induction s) (auto split: list.splits option.splits)

lemma rmatch_body:
  "rmatch [(\<lambda>c. c \<noteq> 93, Plus), (\<lambda>c. c = 93, One)] s = cite_tail s"
  by (cases s) (simp_all add: cite_tail_def rgreedy_close)

lemma cite_tail_Cons:
  "d \<noteq> 93 \<Longrightarrow> cite_tail ds = Some r \<Longrightarrow> cite_tail (d # ds) = Some r"
proof -
  assume d: "d \<noteq> 93" and a: "cite_tail ds = Some r"
  from a obtain e es where ds: "ds = e # es" by (cases ds) (auto simp: cite_tail_def)
  with a have e: "e \<noteq> 93" by (auto simp: cite_tail_def split: if_splits)
  with a ds have "(case dropWhile (\<lambda>x. x \<noteq> 93) es of [] \<Rightarrow> None | _ # r \<Rightarrow> Some r) = Some r"
    by (simp add: cite_tail_def)
  with d e ds show ?thesis by (simp add: cite_tail_def)
qed

lemma rgreedy_space:
  "rgreedy isspace [(\<lambda>c. c \<noteq> 93, Plus), (\<lambda>c. c = 93, One)] s = cite_tail s"
proof (induction s)
  case Nil
  show ?case by (simp add: cite_tail_def)
next
  case (Cons c cs)
  show ?case
  proof (cases "isspace c")
    case False
    then show ?thesis using rmatch_body [of "c # cs"] by simp
  next
    case True
    then have c: "c \<noteq> 93" by auto
    show ?thesis
    proof (cases "cite_tail cs")
      case None
      then show ?thesis using True Cons.IH rmatch_body [of "c # cs"] by simp
    next
      case (Some r)
      then show ?thesis using True Cons.IH cite_tail_Cons [OF c Some] by simp
    qed
  qed
qed

lemma rmatch_CITE_RE:
  "rmatch CITE_RE s = (case s of [] \<Rightarrow> None | c # cs \<Rightarrow> if c = 91 then cite_tail cs else None)"
  by (cases s) (simp_all add: CITE_RE_def rgreedy_space)

lemma cite_tail_length: "cite_tail s = Some r \<Longrightarrow> length r < length s"
proof -
  assume a: "cite_tail s = Some r"
  then obtain d ds where s: "s = d # ds" by (cases s) (auto simp: cite_tail_def)
  with a obtain x where "dropWhile (\<lambda>x. x \<noteq> 93) ds = x # r"
    by (auto simp: cite_tail_def split: if_splits list.splits)
  then have "length (x # r) \<le> length ds" by (metis length_dropWhile_le)
  with s show ?thesis by simp
qed

lemma cite_tail_set: "cite_tail s = Some r \<Longrightarrow> set r \<subseteq> set s"
proof -
  assume a: "cite_tail s = Some r"
  then obtain d ds where s: "s = d # ds" by (cases s) (auto simp: cite_tail_def)
  with a obtain x where "dropWhile (\<lambda>x. x \<noteq> 93) ds = x # r"
    by (auto simp: cite_tail_def split: if_splits list.splits)
  then have "set (x # r) \<subseteq> set ds" by (metis set_dropWhileD subsetI)
  with s show ?thesis by auto
qed

lemma sub_cite_Nil [simp]: "re_sub CITE_RE [] [] = []"
  by (simp add: rmatch_CITE_RE)

lemma sub_cite_Cons:
  "re_sub CITE_RE [] (c # cs) =
     (if c = 91 then (case cite_tail cs of None \<Rightarrow> c # re_sub CITE_RE [] cs
                       | Some r \<Rightarrow> re_sub CITE_RE [] r)
      else c # re_sub CITE_RE [] cs)"
  by (auto simp: rmatch_CITE_RE split: option.splits dest: cite_tail_length)


lemma rgreedy_Nil: "rgreedy p [] s = Some (dropWhile p s)"
  by (induction s) auto

lemma rmatch_SPACES_RE:
  "rmatch SPACES_RE s =
     (case s of [] \<Rightarrow> None | c # cs \<Rightarrow> if isspace c then Some (dropWhile isspace cs) else None)"
  by (cases s) (simp_all add: SPACES_RE_def rgreedy_Nil)

lemma sub_ws_Nil [simp]: "re_sub SPACES_RE [32] [] = []"
  by (simp add: rmatch_SPACES_RE)

lemma sub_ws_Cons:
  "re_sub SPACES_RE [32] (c # cs) =
     (if isspace c then 32 # re_sub SPACES_RE [32] (dropWhile isspace cs)
      else c # re_sub SPACES_RE [32] cs)"
  using length_dropWhile_le [of isspace cs] by (simp add: rmatch_SPACES_RE less_Suc_eq_le)

declare re_sub.simps [simp del]

lemma set_sub_cite: "set (re_sub CITE_RE [] s) \<subseteq> set s"
proof (induction "length s" arbitrary: s rule: less_induct)
  case less
  show ?case
  proof (cases s)
    case Nil
    then show ?thesis by simp
  next
    case (Cons c cs)
    have cs: "set (re_sub CITE_RE [] cs) \<subseteq> set cs" using less Cons by simp
    show ?thesis
    proof (cases "c = 91 \<and> cite_tail cs \<noteq> None")
      case False
      then show ?thesis using cs Cons by (auto simp: sub_cite_Cons)
    next
      case True
      then obtain r where r: "cite_tail cs = Some r" by auto
      then have "set (re_sub CITE_RE [] r) \<subseteq> set r"
        using less Cons cite_tail_length [OF r] by simp
      then show ?thesis using True r Cons cite_tail_set [OF r] by (auto simp: sub_cite_Cons)
    qed
  qed
qed

lemma cite_tail_None:
  "cite_tail cs = None \<longleftrightarrow> (93 \<notin> set cs \<or> (\<exists>t. cs = 93 # t))"
proof (cases cs)
  case Nil
  then show ?thesis by (simp add: cite_tail_def)
next
  case (Cons d ds)
  show ?thesis
  proof (cases "93 \<in> set ds")
    case True
    then have "dropWhile (\<lambda>x. x \<noteq> 93) ds \<noteq> []" by (auto simp: dropWhile_eq_Nil_conv)
    then show ?thesis using Cons True by (auto simp: cite_tail_def split: list.splits)
  next
    case False
    then have dw: "dropWhile (\<lambda>x. x \<noteq> 93) ds = []" by (auto simp: dropWhile_eq_Nil_conv)
    show ?thesis using Cons False by (auto simp: cite_tail_def dw simp del: dropWhile_eq_Nil_conv)
  qed
qed

lemma sub_cite_close: "re_sub CITE_RE [] (93 # t) = 93 # re_sub CITE_RE [] t"
  by (simp add: sub_cite_Cons)

lemma cite_free_sub_cite: "cite_free (re_sub CITE_RE [] s)"
proof (induction "length s" arbitrary: s rule: less_induct)
  case less
  show ?case
  proof (cases s)
    case Nil
    then show ?thesis by simp
  next
    case (Cons c cs)
    have cs: "cite_free (re_sub CITE_RE [] cs)" using less Cons by simp
    show ?thesis
    proof (cases "c = 91")
      case False
      then show ?thesis using cs Cons by (simp add: sub_cite_Cons)
    next
      case True
      show ?thesis
      proof (cases "cite_tail cs")
        case (Some r)
        then have "cite_free (re_sub CITE_RE [] r)"
          using less Cons cite_tail_length [OF Some] by simp
        then show ?thesis using True Some Cons by (simp add: sub_cite_Cons)
      next
        case None
        then have "93 \<notin> set cs \<or> (\<exists>t. cs = 93 # t)" by (simp add: cite_tail_None)
        then have "93 \<notin> set (re_sub CITE_RE [] cs) \<or> (\<exists>t. re_sub CITE_RE [] cs = 93 # t)"
          using set_sub_cite [of cs] sub_cite_close by auto
        then show ?thesis using True None Cons cs by (simp add: sub_cite_Cons)
      qed
    qed
  qed
qed

lemma cite_free_replace_char: "cite_free (replace_char 160 32 s) = cite_free s"
  by (induction s) (auto simp: replace_char_def split: if_splits)

lemma set_sub_ws: "set (re_sub SPACES_RE [32] s) \<subseteq> insert 32 (set s)"
proof (induction "length s" arbitrary: s rule: less_induct)
  case less
  show ?case
  proof (cases s)
    case Nil
    then show ?thesis by simp
  next
    case (Cons c cs)
    have cs: "set (re_sub SPACES_RE [32] cs) \<subseteq> insert 32 (set cs)" using less Cons by simp
    have "length (dropWhile isspace cs) < length s"
      using Cons length_dropWhile_le [of isspace cs] by simp
    then have "set (re_sub SPACES_RE [32] (dropWhile isspace cs)) \<subseteq> insert 32 (set (dropWhile isspace cs))"
      using less by blast
    then have "set (re_sub SPACES_RE [32] (dropWhile isspace cs)) \<subseteq> insert 32 (set cs)"
      using set_dropWhileD [of _ isspace cs] by blast
    then show ?thesis using cs Cons by (auto simp: sub_ws_Cons)
  qed
qed

lemma cite_free_append2: "cite_free (xs @ ys) \<Longrightarrow> cite_free ys"
  by (induction xs) auto

lemma cite_free_append1: "cite_free (xs @ ys) \<Longrightarrow> cite_free xs"
proof (induction xs)
  case Nil
  show ?case by simp
next
  case (Cons c cs)
  then have cs: "cite_free cs" by simp
  have "93 \<notin> set cs \<or> (\<exists>t. cs = 93 # t)" if "c = 91"
  proof (cases cs)
    case Nil
    then show ?thesis by simp
  next
    case (Cons d ds)
    then show ?thesis using Cons.prems that by auto
  qed
  then show ?case using cs by simp
qed

lemma cite_free_dropWhile: "cite_free s \<Longrightarrow> cite_free (dropWhile p s)"
  using cite_free_append2 [of "takeWhile p s" "dropWhile p s"] by simp

lemma cite_free_sub_ws: "cite_free s \<Longrightarrow> cite_free (re_sub SPACES_RE [32] s)"
proof (induction "length s" arbitrary: s rule: less_induct)
  case less
  show ?case
  proof (cases s)
    case Nil
    then show ?thesis by simp
  next
    case (Cons c cs)
    have fcs: "cite_free cs" using less.prems Cons by simp
    show ?thesis
    proof (cases "isspace c")
      case True
      have "length (dropWhile isspace cs) < length s"
        using Cons length_dropWhile_le [of isspace cs] by simp
      then have "cite_free (re_sub SPACES_RE [32] (dropWhile isspace cs))"
        using less.hyps cite_free_dropWhile [OF fcs] by blast
      then show ?thesis using True Cons by (simp add: sub_ws_Cons)
    next
      case False
      have cs: "cite_free (re_sub SPACES_RE [32] cs)" using less.hyps fcs Cons by simp
      show ?thesis
      proof (cases "c = 91")
        case False
        then show ?thesis using \<open>\<not> isspace c\<close> cs Cons by (simp add: sub_ws_Cons)
      next
        case True
        then have "93 \<notin> set cs \<or> (\<exists>t. cs = 93 # t)" using less.prems Cons by simp
        then have "93 \<notin> set (re_sub SPACES_RE [32] cs) \<or> (\<exists>t. re_sub SPACES_RE [32] cs = 93 # t)"
          using set_sub_ws [of cs] by (auto simp: sub_ws_Cons)
        then show ?thesis using \<open>\<not> isspace c\<close> cs Cons by (simp add: sub_ws_Cons)
      qed
    qed
  qed
qed

lemma strip_decomp: "\<exists>a b. s = a @ strip s @ b"
proof -
  let ?d = "dropWhile isspace s"
  have "rev (takeWhile isspace (rev ?d) @ dropWhile isspace (rev ?d)) = rev (rev ?d)"
    by (simp only: takeWhile_dropWhile_id)
  then have "?d = strip s @ rev (takeWhile isspace (rev ?d))"
    by (simp only: rev_append rev_rev_ident strip_def)
  moreover have "s = takeWhile isspace s @ ?d" by simp
  ultimately show ?thesis by metis
qed

lemma cite_free_strip: "cite_free s \<Longrightarrow> cite_free (strip s)"
proof -
  assume a: "cite_free s"
  obtain x y where "s = x @ strip s @ y" using strip_decomp by blast
  with a have "cite_free (x @ strip s @ y)" by simp
  then show ?thesis using cite_free_append1 cite_free_append2 by blast
qed

lemma cite_free_clean_text: "cite_free (clean_text x)"
  by (cases x) (simp_all add: cite_free_strip cite_free_sub_ws cite_free_replace_char cite_free_sub_cite)


lemma set_strip: "set (strip s) \<subseteq> set s"
proof -
  obtain x y where "s = x @ strip s @ y" using strip_decomp by blast
  then have "set s = set x \<union> set (strip s) \<union> set y" by (metis set_append sup_assoc)
  then show ?thesis by blast
qed

lemma nbsp_clean_text: "160 \<notin> set (clean_text x)"
proof (cases x)
  case None
  then show ?thesis by simp
next
  case (Some t)
  let ?a = "replace_char 160 32 (re_sub CITE_RE [] t)"
  have "160 \<notin> set ?a" by (auto simp: replace_char_def)
  then have "160 \<notin> set (re_sub SPACES_RE [32] ?a)" using set_sub_ws [of ?a] by auto
  then show ?thesis using Some set_strip [of "re_sub SPACES_RE [32] ?a"] by auto
qed

lemma sub_ws_head:
  "s = [] \<or> \<not> isspace (hd s) \<Longrightarrow>
   re_sub SPACES_RE [32] s = [] \<or> \<not> isspace (hd (re_sub SPACES_RE [32] s))"
  by (cases s) (auto simp: sub_ws_Cons)

lemma ws_normal_sub_ws: "ws_normal (re_sub SPACES_RE [32] s)"
proof (induction "length s" arbitrary: s rule: less_induct)
  case less
  show ?case
  proof (cases s)
    case Nil
    then show ?thesis by simp
  next
    case (Cons c cs)
    show ?thesis
    proof (cases "isspace c")
      case False
      then show ?thesis using less Cons by (simp add: sub_ws_Cons)
    next
      case True
      let ?d = "dropWhile isspace cs"
      have "length ?d < length s" using Cons length_dropWhile_le [of isspace cs] by simp
      then have n: "ws_normal (re_sub SPACES_RE [32] ?d)" using less by blast
      have "?d = [] \<or> \<not> isspace (hd ?d)" using hd_dropWhile [of isspace cs] by blast
      then have "re_sub SPACES_RE [32] ?d = [] \<or> \<not> isspace (hd (re_sub SPACES_RE [32] ?d))"
        by (rule sub_ws_head)
      then show ?thesis using True n Cons by (simp add: sub_ws_Cons)
    qed
  qed
qed

lemma ws_normal_append2: "ws_normal (xs @ ys) \<Longrightarrow> ws_normal ys"
  by (induction xs) auto

lemma ws_normal_append1: "ws_normal (xs @ ys) \<Longrightarrow> ws_normal xs"
proof (induction xs)
  case Nil
  show ?case by simp
next
  case (Cons c cs)
  then have cs: "ws_normal cs" by simp
  have "c = 32 \<and> (cs = [] \<or> \<not> isspace (hd cs))" if "isspace c"
    using Cons.prems that by (cases cs) auto
  then show ?case using cs by simp
qed

lemma ws_normal_strip: "ws_normal s \<Longrightarrow> ws_normal (strip s)"
proof -
  assume a: "ws_normal s"
  obtain x y where "s = x @ strip s @ y" using strip_decomp by blast
  with a have "ws_normal (x @ strip s @ y)" by simp
  then show ?thesis using ws_normal_append1 ws_normal_append2 by blast
qed

lemma ws_normal_clean_text: "ws_normal (clean_text x)"
  by (cases x) (simp_all add: ws_normal_strip ws_normal_sub_ws)

lemma ws_normal_nth:
  "ws_normal s \<Longrightarrow> Suc i < length s \<Longrightarrow> isspace (s ! i) \<Longrightarrow> \<not> isspace (s ! Suc i)"
proof (induction s arbitrary: i)
  case Nil
  then show ?case by simp
next
  case (Cons c cs)
  show ?case
  proof (cases i)
    case 0
    then show ?thesis using Cons.prems by (cases cs) auto
  next
    case (Suc j)
    then show ?thesis using Cons by simp
  qed
qed

lemma strip_ends: "strip s = [] \<or> (\<not> isspace (hd (strip s)) \<and> \<not> isspace (last (strip s)))"
proof (cases "strip s = []")
  case True
  then show ?thesis by simp
next
  case False
  let ?d = "dropWhile isspace s"
  let ?e = "dropWhile isspace (rev ?d)"
  have e: "?e \<noteq> []" using False by (simp add: strip_def)
  then have "\<not> isspace (hd ?e)" using hd_dropWhile by blast
  then have l: "\<not> isspace (last (strip s))" using e by (simp add: strip_def last_rev)
  have "rev (takeWhile isspace (rev ?d) @ ?e) = rev (rev ?d)"
    by (simp only: takeWhile_dropWhile_id)
  then have d: "?d = strip s @ rev (takeWhile isspace (rev ?d))"
    by (simp only: rev_append rev_rev_ident strip_def)
  then have "?d \<noteq> []" using False by (metis append_is_Nil_conv)
  then have "\<not> isspace (hd ?d)" using hd_dropWhile by blast
  moreover have "hd ?d = hd (strip s)" using d False by (metis hd_append2)
  ultimately show ?thesis using l by simp
qed

lemma sub_cite_id: "cite_free s \<Longrightarrow> re_sub CITE_RE [] s = s"
proof (induction s)
  case Nil
  show ?case by simp
next
  case (Cons c cs)
  then have "c = 91 \<Longrightarrow> cite_tail cs = None" by (simp add: cite_tail_None)
  then show ?case using Cons by (simp add: sub_cite_Cons)
qed

lemma replace_char_id: "old \<notin> set s \<Longrightarrow> replace_char old new s = s"
  by (induction s) (auto simp: replace_char_def)

lemma sub_ws_id: "ws_normal s \<Longrightarrow> re_sub SPACES_RE [32] s = s"
proof (induction s)
  case Nil
  show ?case by simp
next
  case (Cons c cs)
  have "dropWhile isspace cs = cs" if "isspace c"
    using Cons.prems that by (cases cs) auto
  then show ?case using Cons by (auto simp: sub_ws_Cons)
qed

lemma strip_id: "s = [] \<or> (\<not> isspace (hd s) \<and> \<not> isspace (last s)) \<Longrightarrow> strip s = s"
proof (cases s rule: rev_cases)
  case Nil
  then show ?thesis by (simp add: strip_def)
next
  case (snoc ys y)
  assume "s = [] \<or> (\<not> isspace (hd s) \<and> \<not> isspace (last s))"
  with snoc have h: "\<not> isspace (hd s)" and l: "\<not> isspace y" by auto
  have "s \<noteq> []" using snoc by simp
  then have 1: "dropWhile isspace s = s" using h by (cases s) auto
  have "dropWhile isspace (rev s) = rev s" using l snoc by simp
  then show ?thesis using 1 by (simp add: strip_def)
qed



lemma re_search_cite_free: "cite_free s \<Longrightarrow> \<not> re_search CITE_RE s"
proof (induction s)
  case Nil
  show ?case by (simp add: rmatch_CITE_RE)
next
  case (Cons c cs)
  then have "c = 91 \<Longrightarrow> cite_tail cs = None" by (simp add: cite_tail_None)
  then show ?case using Cons by (simp add: rmatch_CITE_RE)
qed

lemma cite_free_no_bracketed:
  "cite_free s \<Longrightarrow> \<not> (\<exists>pre body post. s = pre @ [91] @ body @ [93] @ post \<and> body \<noteq> [] \<and> 93 \<notin> set body)"
proof
  assume f: "cite_free s"
  assume "\<exists>pre body post. s = pre @ [91] @ body @ [93] @ post \<and> body \<noteq> [] \<and> 93 \<notin> set body"
  then obtain pre body post where s: "s = pre @ [91] @ body @ [93] @ post"
    and b: "body \<noteq> []" "93 \<notin> set body" by blast
  from f s have "cite_free (pre @ 91 # body @ 93 # post)" by simp
  then have "cite_free (91 # body @ 93 # post)" by (rule cite_free_append2)
  then have "\<exists>t. body @ 93 # post = 93 # t" by simp
  then show False using b by (cases body) auto
qed

text \<open>
  C9. Absent input maps to the empty string: \<open>clean_text\<close> of \<open>None\<close> is the empty
  string, and \<open>join_and_clean\<close> of the empty node list is the empty string. Both
  functions return a string in every case, never \<open>None\<close>.
\<close>

theorem absent_input_empty_string:
  "clean_text None = [] \<and> join_and_clean [] = []"
  by (simp add: join_and_clean_def)

text \<open>
  C4. For every input (a string or \<open>None\<close>), the output of \<open>clean_text\<close> holds no match
  of the citation pattern of the source and no substring made of an opening bracket,
  one or more characters other than the closing bracket, and a closing bracket; it
  holds no non-breaking space (160); no two whitespace characters are adjacent; and it
  neither starts nor ends with whitespace.
\<close>

theorem clean_text_normalised:
  "\<not> re_search CITE_RE (clean_text x) \<and>
   \<not> (\<exists>pre body post. clean_text x = pre @ [91] @ body @ [93] @ post \<and>
        body \<noteq> [] \<and> 93 \<notin> set body) \<and>
   160 \<notin> set (clean_text x) \<and>
   \<not> (\<exists>i. Suc i < length (clean_text x) \<and>
        isspace (clean_text x ! i) \<and> isspace (clean_text x ! Suc i)) \<and>
   (clean_text x = [] \<or>
      (\<not> isspace (hd (clean_text x)) \<and> \<not> isspace (last (clean_text x))))"
proof -
  have 1: "\<not> re_search CITE_RE (clean_text x)"
    using cite_free_clean_text by (rule re_search_cite_free)
  have 2: "\<not> (\<exists>pre body post. clean_text x = pre @ [91] @ body @ [93] @ post \<and>
        body \<noteq> [] \<and> 93 \<notin> set body)"
    using cite_free_clean_text by (rule cite_free_no_bracketed)
  have 3: "160 \<notin> set (clean_text x)" by (rule nbsp_clean_text)
  have 4: "\<not> (\<exists>i. Suc i < length (clean_text x) \<and>
        isspace (clean_text x ! i) \<and> isspace (clean_text x ! Suc i))"
    using ws_normal_nth [OF ws_normal_clean_text] by blast
  have 5: "clean_text x = [] \<or>
      (\<not> isspace (hd (clean_text x)) \<and> \<not> isspace (last (clean_text x)))"
    by (cases x) (simp_all add: strip_ends)
  from 1 2 3 4 5 show ?thesis by blast
qed

lemma clean_text_sample:
  "clean_text (Some (ustr_of '' a[1] [ b ]  c[]d] '' @ [160, 160] @ ustr_of ''e[ '')) =
   ustr_of ''a c[]d] e[''"
  by (simp add: ustr_of_def rmatch_CITE_RE rmatch_SPACES_RE re_sub.simps cite_tail_def
      replace_char_def strip_def isspace_def)

theorem clean_text_normalised_witness:
  "clean_text (Some (ustr_of '' a[1] [ b ]  c[]d] '' @ [160, 160] @ ustr_of ''e[ '')) =
     ustr_of ''a c[]d] e['' \<and>
   \<not> re_search CITE_RE (ustr_of ''a c[]d] e['') \<and>
   160 \<notin> set (ustr_of ''a c[]d] e['') \<and>
   \<not> (\<exists>i. Suc i < length (ustr_of ''a c[]d] e['') \<and>
        isspace (ustr_of ''a c[]d] e['' ! i) \<and> isspace (ustr_of ''a c[]d] e['' ! Suc i))"
  using clean_text_normalised
    [of "Some (ustr_of '' a[1] [ b ]  c[]d] '' @ [160, 160] @ ustr_of ''e[ '')"]
  unfolding clean_text_sample by blast

text \<open>
  C5. \<open>clean_text\<close> is idempotent: cleaning the output of \<open>clean_text\<close> again returns it
  unchanged, for every input (a string or \<open>None\<close>).
\<close>

theorem clean_text_idempotent:
  "clean_text (Some (clean_text x)) = clean_text x"
proof -
  let ?t = "clean_text x"
  have 1: "re_sub CITE_RE [] ?t = ?t" using cite_free_clean_text by (rule sub_cite_id)
  have 2: "replace_char 160 32 ?t = ?t" using nbsp_clean_text by (rule replace_char_id)
  have 3: "re_sub SPACES_RE [32] ?t = ?t" using ws_normal_clean_text by (rule sub_ws_id)
  have "?t = [] \<or> (\<not> isspace (hd ?t) \<and> \<not> isspace (last ?t))"
    by (cases x) (simp_all add: strip_ends)
  then have 4: "strip ?t = ?t" by (rule strip_id)
  show ?thesis by (simp add: 1 2 3 4)
qed

theorem clean_text_idempotent_witness:
  "clean_text (Some (ustr_of '' a[1] [ b ]  c[]d] '' @ [160, 160] @ ustr_of ''e[ '')) =
     ustr_of ''a c[]d] e['' \<and>
   clean_text (Some (ustr_of ''a c[]d] e['')) = ustr_of ''a c[]d] e[''"
  using clean_text_idempotent
    [of "Some (ustr_of '' a[1] [ b ]  c[]d] '' @ [160, 160] @ ustr_of ''e[ '')"]
  unfolding clean_text_sample by simp

section \<open>The row queries and the loop\<close>

lemma xpath_pos_from_range:
  "xpath_pos_from i (\<lambda>p. lo < p \<and> p \<le> hi) xs =
     take ((hi + 1 - i) - (lo + 1 - i)) (drop (lo + 1 - i) xs)"
proof (induction xs arbitrary: i)
  case Nil
  show ?case by simp
next
  case (Cons x xs)
  show ?case
  proof (cases "lo < i")
    case True
    then have d: "lo + 1 - i = 0" "lo + 1 - Suc i = 0" by simp_all
    show ?thesis
    proof (cases "i \<le> hi")
      case True
      then have "hi + 1 - i = Suc (hi + 1 - Suc i)" by simp
      then show ?thesis using \<open>lo < i\<close> True Cons.IH [of "Suc i"] d by simp
    next
      case False
      then have "hi + 1 - i = 0" "hi + 1 - Suc i = 0" by simp_all
      then show ?thesis using False Cons.IH [of "Suc i"] d by simp
    qed
  next
    case False
    then have d: "lo + 1 - i = Suc (lo + 1 - Suc i)" by simp
    have "(hi + 1 - i) - (lo + 1 - i) = (hi + 1 - Suc i) - (lo + 1 - Suc i)" using False by simp
    then show ?thesis using False Cons.IH [of "Suc i"] d by simp
  qed
qed

lemma ROWS_take_drop: "ROWS_1_TO_10_XPATH doc = take 10 (drop 1 (TABLE_ROWS doc))"
  by (simp add: ROWS_1_TO_10_XPATH_def xpath_pos_def xpath_pos_from_range)

lemma xpath_pos_from_past: "k < i \<Longrightarrow> xpath_pos_from i (\<lambda>p. p = k) xs = []"
  by (induction xs arbitrary: i) auto

lemma xpath_pos_first: "xpath_pos (\<lambda>i. i = 1) xs = take 1 xs"
  by (cases xs) (simp_all add: xpath_pos_def xpath_pos_from_past)

lemma concat_map_if: "concat (map (\<lambda>k. if P k then [k] else []) ks) = filter P ks"
  by (induction ks) auto

lemma located_rows_walk:
  "map snd (filter (\<lambda>(anc, n). is_elem ''tr'' n \<and> tbody_of_target anc) (located anc d)) =
     rows_walk (case anc of [] \<Rightarrow> False | g # _ \<Rightarrow> is_target_table g) (tbody_of_target anc) d"
proof (induction d arbitrary: anc)
  case (Elem t a ks)
  let ?self = "Elem t a ks"
  have b2: "tbody_of_target (?self # anc) =
      ((case anc of [] \<Rightarrow> False | g # _ \<Rightarrow> is_target_table g) \<and> t = ''tbody'')"
    by (cases anc) auto
  have "map snd (filter (\<lambda>(anc, n). is_elem ''tr'' n \<and> tbody_of_target anc)
          (concat (map (located (?self # anc)) ks))) =
        concat (map (rows_walk (is_target_table ?self) (tbody_of_target (?self # anc))) ks)"
    using Elem.IH [of _ "?self # anc"]
    by (simp add: filter_concat map_concat comp_def cong: map_cong)
  then show ?case by (auto simp: b2)
next
  case (Txt s)
  show ?case by simp
next
  case (Cmt s)
  show ?case by simp
qed

lemma TABLE_ROWS_walk: "TABLE_ROWS doc = rows_walk False False doc"
  using located_rows_walk [of "[]" doc] by (simp add: TABLE_ROWS_def)

lemma rows_walk_no_target:
  "filter is_target_table (subtree d) = [] \<Longrightarrow>
   rows_walk b1 b2 d =
     (if b2 \<and> is_elem ''tr'' d then [d] else []) @
     (if b1 \<and> is_elem ''tbody'' d then filter (is_elem ''tr'') (children d) else [])"
proof (induction d arbitrary: b1 b2)
  case (Elem t a ks)
  let ?self = "Elem t a ks"
  from Elem.prems have nt: "\<not> is_target_table ?self"
    and ks: "\<And>k. k \<in> set ks \<Longrightarrow> filter is_target_table (subtree k) = []"
    by (auto simp: filter_concat split: if_splits)
  have "\<And>k. k \<in> set ks \<Longrightarrow> rows_walk False (b1 \<and> t = ''tbody'') k =
      (if (b1 \<and> t = ''tbody'') \<and> is_elem ''tr'' k then [k] else [])"
    using Elem.IH [OF _ ks] by simp
  then have "concat (map (rows_walk False (b1 \<and> t = ''tbody'')) ks) =
      concat (map (\<lambda>k. if (b1 \<and> t = ''tbody'') \<and> is_elem ''tr'' k then [k] else []) ks)"
    by (simp cong: map_cong)
  also have "\<dots> = filter (\<lambda>k. (b1 \<and> t = ''tbody'') \<and> is_elem ''tr'' k) ks"
    by (rule concat_map_if)
  finally show ?case using nt by auto
next
  case (Txt s)
  show ?case by simp
next
  case (Cmt s)
  show ?case by simp
qed

lemma no_table_no_rows: "TABLE_XPATH doc = [] \<Longrightarrow> ROWS_1_TO_10_XPATH doc = []"
  by (simp add: ROWS_take_drop TABLE_ROWS_walk TABLE_XPATH_def rows_walk_no_target)

lemma scrape_loop_eq:
  "scrape_loop nd rows (out, vals) =
     (out @ concat (map (\<lambda>tr. if re_search (SCORE_RE nd) (score_of tr) then []
                              else [Warn (year_of tr) (score_of tr)]) rows),
      vals @ map row_of rows)"
  by (induction rows arbitrary: out vals)
     (simp_all add: Let_def row_of_def year_of_def winner_of_def score_of_def runnersup_of_def)


lemma concat_eq_single:
  "concat xss = [x] \<Longrightarrow> \<exists>a b. xss = a @ [x] # b \<and> (\<forall>y\<in>set a. y = []) \<and> (\<forall>y\<in>set b. y = [])"
proof (induction xss)
  case Nil
  then show ?case by simp
next
  case (Cons ys yss)
  show ?case
  proof (cases ys)
    case Nil
    then have "concat yss = [x]" using Cons.prems by simp
    then obtain a b where "yss = a @ [x] # b" "\<forall>y\<in>set a. y = []" "\<forall>y\<in>set b. y = []"
      using Cons.IH by blast
    then have "ys # yss = (ys # a) @ [x] # b \<and> (\<forall>y\<in>set (ys # a). y = []) \<and> (\<forall>y\<in>set b. y = [])"
      using Nil by simp
    then show ?thesis by blast
  next
    case (Cons z zs)
    then have "ys = [x]" "concat yss = []" using Cons.prems by simp_all
    then have "ys # yss = [] @ [x] # yss \<and> (\<forall>y\<in>set []. y = []) \<and> (\<forall>y\<in>set yss. y = [])"
      by simp
    then show ?thesis by blast
  qed
qed

lemma concat_map_Nil: "\<forall>k\<in>set ks. f k = [] \<Longrightarrow> concat (map f ks) = []"
  by (induction ks) auto

lemma map_eq_split:
  "map f ks = a @ y # b \<Longrightarrow>
   \<exists>ka k0 kb. ks = ka @ k0 # kb \<and> map f ka = a \<and> f k0 = y \<and> map f kb = b"
proof (induction a arbitrary: ks)
  case Nil
  show ?case
  proof (cases ks)
    case Nil
    with \<open>map f ks = [] @ y # b\<close> show ?thesis by simp
  next
    case (Cons k0 kb)
    with \<open>map f ks = [] @ y # b\<close> have "ks = [] @ k0 # kb \<and> map f [] = [] \<and> f k0 = y \<and> map f kb = b"
      by simp
    then show ?thesis by (intro exI)
  qed
next
  case (Cons x a)
  note prem = \<open>map f ks = (x # a) @ y # b\<close>
  show ?case
  proof (cases ks)
    case Nil
    with prem show ?thesis by simp
  next
    case (Cons k ks')
    with prem have k: "f k = x" and m: "map f ks' = a @ y # b" by simp_all
    from Cons.IH [OF m] obtain ka k0 kb
      where r: "ks' = ka @ k0 # kb \<and> map f ka = a \<and> f k0 = y \<and> map f kb = b" by blast
    have "ks = (k # ka) @ k0 # kb \<and> map f (k # ka) = x # a \<and> f k0 = y \<and> map f kb = b"
      using r k Cons by simp
    then show ?thesis by (intro exI)
  qed
qed

lemma tbody_rows_concat:
  "concat (map (\<lambda>k. if is_elem ''tbody'' k then filter (is_elem ''tr'') (children k) else []) ks) =
   concat (map (\<lambda>b. filter (is_elem ''tr'') (children b)) (filter (is_elem ''tbody'') ks))"
  by (induction ks) auto

lemma rows_walk_single:
  "filter is_target_table (subtree d) = [t] \<Longrightarrow> rows_walk False False d = table_body_rows t"
proof (induction d)
  case (Elem t0 a ks)
  let ?self = "Elem t0 a ks"
  let ?f = "\<lambda>k. filter is_target_table (subtree k)"
  have sub: "filter is_target_table (subtree ?self) =
      (if is_target_table ?self then [?self] else []) @ concat (map ?f ks)"
    by (simp add: filter_concat comp_def)
  show ?case
  proof (cases "is_target_table ?self")
    case True
    from Elem.prems [unfolded sub] True have t: "t = ?self" and c: "concat (map ?f ks) = []"
      by simp_all
    from c have ks: "\<And>k. k \<in> set ks \<Longrightarrow> filter is_target_table (subtree k) = []" by simp
    have "\<And>k. k \<in> set ks \<Longrightarrow> rows_walk True False k =
        (if is_elem ''tbody'' k then filter (is_elem ''tr'') (children k) else [])"
      using rows_walk_no_target [OF ks] by simp
    then have "concat (map (rows_walk True False) ks) =
        concat (map (\<lambda>k. if is_elem ''tbody'' k then filter (is_elem ''tr'') (children k) else []) ks)"
      by (simp cong: map_cong)
    also have "\<dots> = table_body_rows ?self"
      by (simp add: table_body_rows_def tbody_rows_concat)
    finally have "concat (map (rows_walk True False) ks) = table_body_rows ?self" .
    then show ?thesis using True t by simp
  next
    case False
    from Elem.prems [unfolded sub] False have c: "concat (map ?f ks) = [t]" by simp
    from concat_eq_single [OF c] obtain a b
      where ab: "map ?f ks = a @ [t] # b" and a: "\<forall>y\<in>set a. y = []" and b: "\<forall>y\<in>set b. y = []"
      by (elim exE conjE)
    from map_eq_split [OF ab] obtain ka k0 kb where ks: "ks = ka @ k0 # kb"
      and ka: "map ?f ka = a" and k0: "?f k0 = [t]" and kb: "map ?f kb = b"
      by (elim exE conjE)
    have "\<forall>k\<in>set ka. ?f k = []" using a ka by auto
    then have 1: "\<forall>k\<in>set ka. rows_walk False False k = []"
      using rows_walk_no_target [of _ False False] by auto
    have "\<forall>k\<in>set kb. ?f k = []" using b kb by auto
    then have 2: "\<forall>k\<in>set kb. rows_walk False False k = []"
      using rows_walk_no_target [of _ False False] by auto
    have "k0 \<in> set ks" using ks by simp
    then have 3: "rows_walk False False k0 = table_body_rows t" using k0 by (rule Elem.IH)
    have "concat (map (rows_walk False False) ks) = rows_walk False False k0"
      unfolding ks by (simp add: concat_map_Nil [OF 1] concat_map_Nil [OF 2])
    then show ?thesis using False 3 by simp
  qed
next
  case (Txt s)
  then show ?case by (simp add: is_target_table_def split: if_splits)
next
  case (Cmt s)
  then show ?case by (simp add: is_target_table_def split: if_splits)
qed

lemma single_table_rows: "TABLE_XPATH doc = [t] \<Longrightarrow> TABLE_ROWS doc = table_body_rows t"
  unfolding TABLE_ROWS_walk TABLE_XPATH_def by (rule rows_walk_single)

section \<open>The matcher and the strings a pattern denotes\<close>

lemma prefix_match_Nil [simp]: "prefix_match [] s"
  by (simp add: prefix_match_def)

lemma prefix_match_One_Nil [simp]: "\<not> prefix_match ((p, One) # its) []"
  by (simp add: prefix_match_def)

lemma prefix_match_One_Cons [simp]:
  "prefix_match ((p, One) # its) (c # cs) = (p c \<and> prefix_match its cs)"
proof
  assume "prefix_match ((p, One) # its) (c # cs)"
  then obtain m r d e where "c # cs = m @ r" "m = d # e" "p d" "matches its e"
    by (auto simp: prefix_match_def)
  then have "p c \<and> cs = e @ r \<and> matches its e" by simp
  then show "p c \<and> prefix_match its cs" by (auto simp: prefix_match_def)
next
  assume "p c \<and> prefix_match its cs"
  then obtain m r where "p c" "cs = m @ r" "matches its m" by (auto simp: prefix_match_def)
  then have "c # cs = (c # m) @ r \<and> matches ((p, One) # its) (c # m)" by simp
  then show "prefix_match ((p, One) # its) (c # cs)" unfolding prefix_match_def by blast
qed

lemma prefix_match_Star [simp]: "prefix_match ((p, Star) # its) s = run_match p its s"
proof
  assume "prefix_match ((p, Star) # its) s"
  then obtain m r a b where "s = m @ r" "m = a @ b" "\<forall>c\<in>set a. p c" "matches its b"
    by (auto simp: prefix_match_def)
  then have "s = a @ (b @ r) \<and> (\<forall>c\<in>set a. p c) \<and> prefix_match its (b @ r)"
    by (auto simp: prefix_match_def)
  then show "run_match p its s" unfolding run_match_def by blast
next
  assume "run_match p its s"
  then obtain a t m r where "s = a @ t" "\<forall>c\<in>set a. p c" "t = m @ r" "matches its m"
    by (auto simp: run_match_def prefix_match_def)
  then have "s = (a @ m) @ r \<and> matches ((p, Star) # its) (a @ m)" by auto
  then show "prefix_match ((p, Star) # its) s" unfolding prefix_match_def by blast
qed

lemma prefix_match_Plus_Nil [simp]: "\<not> prefix_match ((p, Plus) # its) []"
  by (simp add: prefix_match_def)

lemma prefix_match_Plus_Cons [simp]:
  "prefix_match ((p, Plus) # its) (c # cs) = (p c \<and> run_match p its cs)"
proof
  assume "prefix_match ((p, Plus) # its) (c # cs)"
  then obtain m r a b where m: "c # cs = m @ r" "m = a @ b" "a \<noteq> []" "\<forall>c\<in>set a. p c" "matches its b"
    by (auto simp: prefix_match_def)
  then obtain a' where a: "a = c # a'" by (cases a) auto
  with m have "p c \<and> cs = a' @ (b @ r) \<and> (\<forall>c\<in>set a'. p c) \<and> prefix_match its (b @ r)"
    by (auto simp: prefix_match_def)
  then show "p c \<and> run_match p its cs" unfolding run_match_def by blast
next
  assume "p c \<and> run_match p its cs"
  then obtain a t m r where f: "p c" "cs = a @ t" "\<forall>c\<in>set a. p c" "t = m @ r" "matches its m"
    by (auto simp: run_match_def prefix_match_def)
  then have "(c # a) @ m = (c # a) @ m \<and> c # a \<noteq> [] \<and> (\<forall>x\<in>set (c # a). p x) \<and> matches its m"
    by simp
  then have "matches ((p, Plus) # its) ((c # a) @ m)" unfolding matches.simps by blast
  moreover have "c # cs = ((c # a) @ m) @ r" using f by simp
  ultimately show "prefix_match ((p, Plus) # its) (c # cs)" unfolding prefix_match_def by blast
qed

lemma run_match_Nil [simp]: "run_match p its [] = prefix_match its []"
  by (simp add: run_match_def)

lemma run_match_Cons:
  "run_match p its (c # cs) = (prefix_match its (c # cs) \<or> (p c \<and> run_match p its cs))"
proof
  assume "run_match p its (c # cs)"
  then obtain a t where at: "c # cs = a @ t" "\<forall>c\<in>set a. p c" "prefix_match its t"
    by (auto simp: run_match_def)
  show "prefix_match its (c # cs) \<or> (p c \<and> run_match p its cs)"
  proof (cases a)
    case Nil
    then show ?thesis using at by simp
  next
    case (Cons d a')
    then have "p c \<and> cs = a' @ t \<and> (\<forall>c\<in>set a'. p c) \<and> prefix_match its t" using at by auto
    then have "p c \<and> run_match p its cs" unfolding run_match_def by blast
    then show ?thesis by simp
  qed
next
  assume "prefix_match its (c # cs) \<or> (p c \<and> run_match p its cs)"
  then show "run_match p its (c # cs)"
  proof
    assume "prefix_match its (c # cs)"
    then have "c # cs = [] @ (c # cs) \<and> (\<forall>c\<in>set []. p c) \<and> prefix_match its (c # cs)" by simp
    then show ?thesis unfolding run_match_def by blast
  next
    assume "p c \<and> run_match p its cs"
    then obtain a t where "p c" "cs = a @ t" "\<forall>c\<in>set a. p c" "prefix_match its t"
      by (auto simp: run_match_def)
    then have "c # cs = (c # a) @ t \<and> (\<forall>x\<in>set (c # a). p x) \<and> prefix_match its t" by simp
    then show ?thesis unfolding run_match_def by blast
  qed
qed

lemma rmatch_iff_prefix_match:
  "(rmatch its s \<noteq> None) = prefix_match its s"
  "(rgreedy p its' s' \<noteq> None) = run_match p its' s'"
proof (induction its s and p its' s' rule: rmatch_rgreedy.induct)
  case (8 p its c cs)
  then show ?case by (auto simp: run_match_Cons split: option.splits)
qed simp_all

lemma re_search_iff: "re_search pat s = (\<exists>pre t. s = pre @ t \<and> prefix_match pat t)"
proof (induction s)
  case Nil
  have "re_search pat [] = prefix_match pat []"
    by (simp only: re_search.simps rmatch_iff_prefix_match)
  then show ?case by simp
next
  case (Cons c cs)
  have step: "re_search pat (c # cs) = (prefix_match pat (c # cs) \<or> re_search pat cs)"
    by (simp only: re_search.simps rmatch_iff_prefix_match)
  show ?case
  proof
    assume "re_search pat (c # cs)"
    then have "prefix_match pat (c # cs) \<or> re_search pat cs"
      by (simp only: step)
    then show "\<exists>pre t. c # cs = pre @ t \<and> prefix_match pat t"
    proof
      assume "prefix_match pat (c # cs)"
      then have "c # cs = [] @ (c # cs) \<and> prefix_match pat (c # cs)" by simp
      then show ?thesis by blast
    next
      assume "re_search pat cs"
      then obtain pre t where "cs = pre @ t" "prefix_match pat t" using Cons.IH by blast
      then have "c # cs = (c # pre) @ t \<and> prefix_match pat t" by simp
      then show ?thesis by blast
    qed
  next
    assume "\<exists>pre t. c # cs = pre @ t \<and> prefix_match pat t"
    then obtain pre t where pt: "c # cs = pre @ t" "prefix_match pat t" by blast
    show "re_search pat (c # cs)"
    proof (cases pre)
      case Nil
      then have "prefix_match pat (c # cs)" using pt by simp
      then show ?thesis by (simp only: step simp_thms)
    next
      case (Cons d pre')
      then have "cs = pre' @ t \<and> prefix_match pat t" using pt by simp
      then have "re_search pat cs" using Cons.IH by blast
      then show ?thesis by (simp add: step)
    qed
  qed
qed


lemma matches_SCORE_RE:
  "matches (SCORE_RE nd) m =
     (\<exists>d1 w1 dash w2 d2.
        m = d1 @ w1 @ [dash] @ w2 @ d2 \<and>
        d1 \<noteq> [] \<and> (\<forall>c\<in>set d1. isdigit nd c) \<and> (\<forall>c\<in>set w1. isspace c) \<and>
        (dash = 8211 \<or> dash = 45) \<and>
        (\<forall>c\<in>set w2. isspace c) \<and> d2 \<noteq> [] \<and> (\<forall>c\<in>set d2. isdigit nd c))"
proof
  assume "matches (SCORE_RE nd) m"
  then obtain d1 b1 where 1: "m = d1 @ b1" "d1 \<noteq> []" "\<forall>c\<in>set d1. isdigit nd c"
    and m1: "matches [(isspace, Star), (\<lambda>c. c = 8211 \<or> c = 45, One), (isspace, Star),
                      (isdigit nd, Plus)] b1"
    unfolding SCORE_RE_def matches.simps(4) by blast
  from m1 obtain w1 b2 where 2: "b1 = w1 @ b2" "\<forall>c\<in>set w1. isspace c"
    and m2: "matches [(\<lambda>c. c = 8211 \<or> c = 45, One), (isspace, Star), (isdigit nd, Plus)] b2"
    unfolding matches.simps(3) by blast
  from m2 obtain dash b3 where 3: "b2 = dash # b3" "dash = 8211 \<or> dash = 45"
    and m3: "matches [(isspace, Star), (isdigit nd, Plus)] b3"
    unfolding matches.simps(2) by blast
  from m3 obtain w2 b4 where 4: "b3 = w2 @ b4" "\<forall>c\<in>set w2. isspace c"
    and m4: "matches [(isdigit nd, Plus)] b4"
    unfolding matches.simps(3) by blast
  from m4 obtain d2 b5 where 5: "b4 = d2 @ b5" "d2 \<noteq> []" "\<forall>c\<in>set d2. isdigit nd c" "b5 = []"
    unfolding matches.simps(4) matches.simps(1) by blast
  have "m = d1 @ w1 @ [dash] @ w2 @ d2" using 1 2 3 4 5 by simp
  then show "\<exists>d1 w1 dash w2 d2.
        m = d1 @ w1 @ [dash] @ w2 @ d2 \<and>
        d1 \<noteq> [] \<and> (\<forall>c\<in>set d1. isdigit nd c) \<and> (\<forall>c\<in>set w1. isspace c) \<and>
        (dash = 8211 \<or> dash = 45) \<and>
        (\<forall>c\<in>set w2. isspace c) \<and> d2 \<noteq> [] \<and> (\<forall>c\<in>set d2. isdigit nd c)"
    using 1 2 3 4 5 by blast
next
  assume "\<exists>d1 w1 dash w2 d2.
        m = d1 @ w1 @ [dash] @ w2 @ d2 \<and>
        d1 \<noteq> [] \<and> (\<forall>c\<in>set d1. isdigit nd c) \<and> (\<forall>c\<in>set w1. isspace c) \<and>
        (dash = 8211 \<or> dash = 45) \<and>
        (\<forall>c\<in>set w2. isspace c) \<and> d2 \<noteq> [] \<and> (\<forall>c\<in>set d2. isdigit nd c)"
  then obtain d1 w1 dash w2 d2 where m: "m = d1 @ w1 @ [dash] @ w2 @ d2"
    and d1: "d1 \<noteq> []" "\<forall>c\<in>set d1. isdigit nd c" and w1: "\<forall>c\<in>set w1. isspace c"
    and dash: "dash = 8211 \<or> dash = 45"
    and w2: "\<forall>c\<in>set w2. isspace c" and d2: "d2 \<noteq> []" "\<forall>c\<in>set d2. isdigit nd c"
    by blast
  have m4: "matches [(isdigit nd, Plus)] d2"
    unfolding matches.simps(4) matches.simps(1) using d2 by auto
  have m3: "matches [(isspace, Star), (isdigit nd, Plus)] (w2 @ d2)"
    unfolding matches.simps(3) using w2 m4 by blast
  have m2: "matches [(\<lambda>c. c = 8211 \<or> c = 45, One), (isspace, Star), (isdigit nd, Plus)]
              (dash # w2 @ d2)"
    unfolding matches.simps(2) using dash m3 by blast
  have m1: "matches [(isspace, Star), (\<lambda>c. c = 8211 \<or> c = 45, One), (isspace, Star),
                      (isdigit nd, Plus)] (w1 @ dash # w2 @ d2)"
    unfolding matches.simps(3) using w1 m2 by blast
  have "matches (SCORE_RE nd) (d1 @ w1 @ dash # w2 @ d2)"
    unfolding SCORE_RE_def matches.simps(4) using d1 m1 by blast
  then show "matches (SCORE_RE nd) m" using m by simp
qed

lemma re_search_SCORE_RE: "re_search (SCORE_RE nd) s = score_shaped nd s"
proof
  assume "re_search (SCORE_RE nd) s"
  then obtain pre m post where s: "s = pre @ m @ post" and "matches (SCORE_RE nd) m"
    unfolding re_search_iff prefix_match_def by blast
  then obtain d1 w1 dash w2 d2 where "m = d1 @ w1 @ [dash] @ w2 @ d2"
    and r: "d1 \<noteq> []" "\<forall>c\<in>set d1. isdigit nd c" "\<forall>c\<in>set w1. isspace c"
      "dash = 8211 \<or> dash = 45" "\<forall>c\<in>set w2. isspace c" "d2 \<noteq> []" "\<forall>c\<in>set d2. isdigit nd c"
    unfolding matches_SCORE_RE by blast
  with s have "s = pre @ d1 @ w1 @ [dash] @ w2 @ d2 @ post" by simp
  with r show "score_shaped nd s" unfolding score_shaped_def by blast
next
  assume "score_shaped nd s"
  then obtain pre d1 w1 dash w2 d2 post where s: "s = pre @ d1 @ w1 @ [dash] @ w2 @ d2 @ post"
    and r: "d1 \<noteq> []" "\<forall>c\<in>set d1. isdigit nd c" "\<forall>c\<in>set w1. isspace c"
      "dash = 8211 \<or> dash = 45" "\<forall>c\<in>set w2. isspace c" "d2 \<noteq> []" "\<forall>c\<in>set d2. isdigit nd c"
    unfolding score_shaped_def by blast
  from r have "matches (SCORE_RE nd) (d1 @ w1 @ [dash] @ w2 @ d2)"
    unfolding matches_SCORE_RE by blast
  moreover have "s = pre @ (d1 @ w1 @ [dash] @ w2 @ d2) @ post" using s by simp
  ultimately have "\<exists>pre t. s = pre @ t \<and> prefix_match (SCORE_RE nd) t"
    unfolding prefix_match_def by blast
  then show "re_search (SCORE_RE nd) s" unfolding re_search_iff .
qed

section \<open>The fixtures evaluated, and the properties of scrape\_first10\<close>

lemmas clean_eval =
  join_and_clean_def rmatch_CITE_RE rmatch_SPACES_RE sub_cite_Cons sub_ws_Cons cite_tail_def
  replace_char_def strip_def isspace_def ustr_of_def

lemmas row_query_defs =
  row_of_def year_of_def winner_of_def score_of_def runnersup_of_def
  YEAR_REL_XPATH_def WINNER_REL_XPATH_def SCORE_REL_XPATH_def RUNNERSUP_REL_XPATH_def
  xpath_pos_def mk_row_def

lemma mk_row_fields:
  "row_of (mk_row y w sc r) =
     [clean_text (Some y), clean_text (Some w), clean_text (Some (sc @ ustr_of ''[1]'')),
      clean_text (Some r)]"
  by (simp add: row_query_defs join_and_clean_def)

lemma row_1930: "row_of r1930 = [ustr_of ''1930'', ustr_of ''Uruguay'', [52, 8211, 50], ustr_of ''Argentina'']"
  unfolding r1930_def mk_row_fields by (simp add: clean_eval)

lemma row_1934: "row_of r1934 = [ustr_of ''1934'', ustr_of ''Italy'', [50, 8211, 49], ustr_of ''Czechoslovakia'']"
  unfolding r1934_def mk_row_fields by (simp add: clean_eval)

lemma row_1950: "row_of r1950 = [ustr_of ''1950'', ustr_of ''Uruguay'', ustr_of ''TBD'', ustr_of ''Brazil'']"
  unfolding r1950_def mk_row_fields by (simp add: clean_eval)

lemma finals_table_target: "is_target_table (finals_table rows)"
  by (simp add: is_target_table_def finals_table_def descendants_def string_value_def ustr_of_def)


lemma not_table: "t \<noteq> ''table'' \<Longrightarrow> \<not> is_target_table (Elem t a ks)"
  by (simp add: is_target_table_def)

lemma text_not_table [simp]: "\<not> is_target_table (Txt s)" "\<not> is_target_table (Cmt s)"
  by (simp_all add: is_target_table_def)

lemma mk_row_no_table [simp]: "filter is_target_table (subtree (mk_row y w sc r)) = []"
  by (simp add: mk_row_def not_table)

lemma header_row_no_table [simp]: "filter is_target_table (subtree header_row) = []"
  by (simp add: header_row_def not_table)

lemma mk_row_is_tr [simp]: "is_elem ''tr'' (mk_row y w sc r)"
  by (simp add: mk_row_def)

lemma header_row_is_tr [simp]: "is_elem ''tr'' header_row"
  by (simp add: header_row_def)

lemma filter_concat_Nil:
  "\<forall>r\<in>set rows. filter P (f r) = [] \<Longrightarrow> filter P (concat (map f rows)) = []"
  by (induction rows) auto

lemma TABLE_XPATH_finals_page:
  "\<forall>r\<in>set rows. filter is_target_table (subtree r) = [] \<Longrightarrow>
   TABLE_XPATH (finals_page rows) = [finals_table rows]"
proof -
  assume "\<forall>r\<in>set rows. filter is_target_table (subtree r) = []"
  then have r: "filter is_target_table (concat (map subtree rows)) = []"
    by (rule filter_concat_Nil)
  have t: "is_target_table (Elem ''table'' [(''class'', ustr_of ''wikitable sortable'')]
       [Elem ''caption'' [] [Txt (ustr_of ''List of FIFA World Cup finals'')],
        Elem ''tbody'' [] rows])"
    using finals_table_target [of rows] by (simp add: finals_table_def)
  show ?thesis
    unfolding TABLE_XPATH_def finals_page_def finals_table_def
    by (simp add: not_table t r del: filter_empty_conv)
qed

lemma table_body_rows_finals_table:
  "table_body_rows (finals_table rows) = filter (is_elem ''tr'') rows"
  by (simp add: table_body_rows_def finals_table_def)

lemmas row_defs = r1930_def r1934_def r1938_def r1950_def r1954_def r1958_def r1962_def
  r1966_def r1970_def r1974_def r1978_def

lemma short_page_rows: "ROWS_1_TO_10_XPATH short_page = [r1930, r1934]"
proof -
  have "TABLE_XPATH short_page = [finals_table [header_row, r1930, r1934]]"
    unfolding short_page_def by (rule TABLE_XPATH_finals_page) (simp add: row_defs)
  then have "TABLE_ROWS short_page = table_body_rows (finals_table [header_row, r1930, r1934])"
    by (rule single_table_rows)
  then show ?thesis
    by (simp add: ROWS_take_drop table_body_rows_finals_table row_defs)
qed

lemma mixed_page_rows: "ROWS_1_TO_10_XPATH mixed_page = [r1930, r1950]"
proof -
  have "TABLE_XPATH mixed_page = [finals_table [header_row, r1930, r1950]]"
    unfolding mixed_page_def by (rule TABLE_XPATH_finals_page) (simp add: row_defs)
  then have "TABLE_ROWS mixed_page = table_body_rows (finals_table [header_row, r1930, r1950])"
    by (rule single_table_rows)
  then show ?thesis
    by (simp add: ROWS_take_drop table_body_rows_finals_table row_defs)
qed

lemma scrape_rows:
  "fetch url = Inr doc \<Longrightarrow> ROWS_1_TO_10_XPATH doc = rows \<Longrightarrow> rows \<noteq> [] \<Longrightarrow>
   scrape_first10 nd fetch url =
     Inr (concat (map (\<lambda>tr. if re_search (SCORE_RE nd) (score_of tr) then []
                              else [Warn (year_of tr) (score_of tr)]) rows),
          HEADER # map row_of rows)"
  by (simp add: scrape_first10_def scrape_loop_eq)

lemma scrape_no_rows:
  "fetch url = Inr doc \<Longrightarrow> ROWS_1_TO_10_XPATH doc = [] \<Longrightarrow>
   scrape_first10 nd fetch url = Inl rows_not_found"
  by (simp add: scrape_first10_def rows_not_found_def)

lemma score_eval:
  "re_search (SCORE_RE ascii_only) [52, 8211, 50]"
  "re_search (SCORE_RE ascii_only) [50, 8211, 49]"
  "\<not> re_search (SCORE_RE ascii_only) (ustr_of ''TBD'')"
  by (simp_all add: SCORE_RE_def isdigit_def ascii_only_def isspace_def ustr_of_def)

lemma row_parts:
  "row_of tr = [y, w, sc, r] \<Longrightarrow> year_of tr = y \<and> winner_of tr = w \<and> score_of tr = sc \<and> runnersup_of tr = r"
  by (simp add: row_of_def)

lemma scrape_short_page:
  "scrape_first10 ascii_only (serve short_page) url =
     Inr ([], [HEADER,
               [ustr_of ''1930'', ustr_of ''Uruguay'', [52, 8211, 50], ustr_of ''Argentina''],
               [ustr_of ''1934'', ustr_of ''Italy'', [50, 8211, 49], ustr_of ''Czechoslovakia'']])"
proof -
  have f: "serve short_page url = Inr short_page" by (simp add: serve_def)
  have "[r1930, r1934] \<noteq> []" by simp
  from scrape_rows [of "serve short_page" url short_page "[r1930, r1934]" ascii_only, OF f short_page_rows this]
  show ?thesis
    using row_parts [OF row_1930] row_parts [OF row_1934]
    by (simp add: row_1930 row_1934 score_eval del: re_search.simps)
qed

lemma scrape_mixed_page:
  "scrape_first10 ascii_only (serve mixed_page) url =
     Inr ([Warn (ustr_of ''1950'') (ustr_of ''TBD'')],
          [HEADER,
           [ustr_of ''1930'', ustr_of ''Uruguay'', [52, 8211, 50], ustr_of ''Argentina''],
           [ustr_of ''1950'', ustr_of ''Uruguay'', ustr_of ''TBD'', ustr_of ''Brazil'']])"
proof -
  have f: "serve mixed_page url = Inr mixed_page" by (simp add: serve_def)
  have "[r1930, r1950] \<noteq> []" by simp
  from scrape_rows [of "serve mixed_page" url mixed_page "[r1930, r1950]" ascii_only, OF f mixed_page_rows this]
  show ?thesis
    using row_parts [OF row_1930] row_parts [OF row_1950]
    by (simp add: row_1930 row_1950 score_eval del: re_search.simps)
qed


lemma full_page_tables: "TABLE_XPATH full_page =
    [finals_table [header_row, r1930, r1934, r1938, r1950, r1954, r1958, r1962, r1966, r1970,
                   r1974, r1978]]"
  unfolding full_page_def by (rule TABLE_XPATH_finals_page) (simp add: row_defs)

lemma full_page_body_rows:
  "table_body_rows (finals_table [header_row, r1930, r1934, r1938, r1950, r1954, r1958, r1962,
      r1966, r1970, r1974, r1978]) =
   [header_row, r1930, r1934, r1938, r1950, r1954, r1958, r1962, r1966, r1970, r1974, r1978]"
  by (simp add: table_body_rows_finals_table row_defs)

lemma plain_page_tables: "TABLE_XPATH plain_page = []"
  by (simp add: TABLE_XPATH_def plain_page_def not_table)

lemma first_cell_filters:
  "find P ks = Some c \<Longrightarrow> Q c \<Longrightarrow> (\<And>k. Q k \<Longrightarrow> P k) \<Longrightarrow>
   take 1 (filter P ks) = [c] \<and> take 1 (filter Q ks) = [c]"
proof (induction ks)
  case Nil
  then show ?case by simp
next
  case (Cons k ks)
  show ?case
  proof (cases "P k")
    case True
    then have "k = c" using Cons.prems(1) by simp
    then show ?thesis using True Cons.prems(2) by simp
  next
    case False
    then have "\<not> Q k" using Cons.prems(3) by blast
    moreover have "find P ks = Some c" using False Cons.prems(1) by simp
    ultimately show ?thesis using False Cons.IH Cons.prems(2,3) by simp
  qed
qed



text \<open>
  C1. The claim: \<open>scrape_first10\<close> succeeds only when the table yields at least eleven
  body rows, and fails with an error on fewer. Evaluated on a page whose table has
  three body rows (the header row and two data rows): the function returns a grid of
  the header and two rows, and raises nothing.
\<close>

theorem short_table_returns_short_grid:
  "scrape_first10 ascii_only (serve short_page) [] =
     Inr ([], [HEADER,
               [ustr_of ''1930'', ustr_of ''Uruguay'', [52, 8211, 50], ustr_of ''Argentina''],
               [ustr_of ''1934'', ustr_of ''Italy'', [50, 8211, 49], ustr_of ''Czechoslovakia'']])"
  by (rule scrape_short_page)

text \<open>
  C2. When the document has one table selected by \<open>TABLE_XPATH\<close> (class \<open>wikitable\<close>,
  caption containing the marker phrase) and that table has twelve body rows, the row
  query selects rows 2 to 11 in document order, and \<open>scrape_first10\<close> returns the header
  followed by the fields of exactly these ten rows; row 12 plays no part, and nothing
  but the positions decides the selection.
\<close>

theorem twelve_rows_positional:
  assumes "fetch url = Inr doc"
    and "TABLE_XPATH doc = [t]"
    and "table_body_rows t = [r1, r2, r3, r4, r5, r6, r7, r8, r9, r10, r11, r12]"
  shows "ROWS_1_TO_10_XPATH doc = [r2, r3, r4, r5, r6, r7, r8, r9, r10, r11] \<and>
         (\<exists>out. scrape_first10 nd fetch url =
            Inr (out, HEADER # map row_of [r2, r3, r4, r5, r6, r7, r8, r9, r10, r11]))"
proof -
  have "TABLE_ROWS doc = [r1, r2, r3, r4, r5, r6, r7, r8, r9, r10, r11, r12]"
    using single_table_rows [OF assms(2)] assms(3) by simp
  then have rows: "ROWS_1_TO_10_XPATH doc = [r2, r3, r4, r5, r6, r7, r8, r9, r10, r11]"
    by (simp add: ROWS_take_drop)
  have "[r2, r3, r4, r5, r6, r7, r8, r9, r10, r11] \<noteq> []" by simp
  from scrape_rows [of fetch url doc _ nd, OF assms(1) rows this] rows show ?thesis by blast
qed

theorem twelve_rows_positional_witness:
  "ROWS_1_TO_10_XPATH full_page =
     [r1930, r1934, r1938, r1950, r1954, r1958, r1962, r1966, r1970, r1974] \<and>
   (\<exists>out. scrape_first10 ascii_only (serve full_page) [] =
      Inr (out, HEADER # map row_of
        [r1930, r1934, r1938, r1950, r1954, r1958, r1962, r1966, r1970, r1974]))"
proof -
  have f: "serve full_page [] = Inr full_page" by (simp add: serve_def)
  show ?thesis
    by (rule twelve_rows_positional
        [of "serve full_page" "[]" full_page, OF f full_page_tables full_page_body_rows])
qed

text \<open>
  C6. When the fetched document has no table selected by \<open>TABLE_XPATH\<close>,
  \<open>scrape_first10\<close> raises its \<open>RuntimeError\<close> about the page structure, and \<open>main\<close> ends
  with that exception, prints nothing and leaves the file system as it found it: no
  directory is created and no file is written.
\<close>

theorem no_table_fails_without_output:
  assumes "fetch (arg_url a) = Inr doc" and "TABLE_XPATH doc = []"
  shows "scrape_first10 nd fetch (arg_url a) = Inl rows_not_found \<and>
         main nd fetch a s = (Inl rows_not_found, s, [])"
proof -
  have "ROWS_1_TO_10_XPATH doc = []" using assms(2) by (rule no_table_no_rows)
  then have "scrape_first10 nd fetch (arg_url a) = Inl rows_not_found"
    using assms(1) by (simp add: scrape_no_rows)
  then show ?thesis by (simp add: main_def)
qed

theorem no_table_fails_without_output_witness:
  "scrape_first10 ascii_only (serve plain_page) (arg_url default_args) =
     Inl (RuntimeError
       ''Could not locate finals table rows with XPath. Page structure may have changed.'') \<and>
   main ascii_only (serve plain_page) default_args empty_fs =
     (Inl (RuntimeError
       ''Could not locate finals table rows with XPath. Page structure may have changed.''),
      empty_fs, [])"
proof -
  have f: "serve plain_page (arg_url default_args) = Inr plain_page" by (simp add: serve_def)
  show ?thesis
    using no_table_fails_without_output
      [of "serve plain_page" default_args plain_page ascii_only empty_fs, OF f plain_page_tables]
    by (simp add: rows_not_found_def)
qed

text \<open>
  C7. For the rows the query selects, the lines \<open>scrape_first10\<close> prints are, row by row
  in order, one warning carrying the row's year and score for exactly the rows whose
  normalised score has no substring of digits, optional whitespace, an en dash or a
  hyphen, optional whitespace, digits; and the grid holds the header and then every
  row, warned or not, with its four normalised fields.
\<close>

theorem score_warning_iff_unshaped:
  assumes "fetch url = Inr doc" and "ROWS_1_TO_10_XPATH doc = rows" and "rows \<noteq> []"
  shows "scrape_first10 nd fetch url =
     Inr (concat (map (\<lambda>tr. if score_shaped nd (score_of tr) then []
                              else [Warn (year_of tr) (score_of tr)]) rows),
          HEADER # map (\<lambda>tr. [year_of tr, winner_of tr, score_of tr, runnersup_of tr]) rows)"
  using scrape_rows [of fetch url doc rows nd, OF assms]
  by (simp add: re_search_SCORE_RE row_of_def)

theorem score_warning_iff_unshaped_witness:
  "scrape_first10 ascii_only (serve mixed_page) [] =
     Inr ([Warn (ustr_of ''1950'') (ustr_of ''TBD'')],
          [HEADER,
           [ustr_of ''1930'', ustr_of ''Uruguay'', [52, 8211, 50], ustr_of ''Argentina''],
           [ustr_of ''1950'', ustr_of ''Uruguay'', ustr_of ''TBD'', ustr_of ''Brazil'']]) \<and>
   score_shaped ascii_only [52, 8211, 50] \<and>
   \<not> score_shaped ascii_only (ustr_of ''TBD'')"
proof -
  have f: "serve mixed_page [] = Inr mixed_page" by (simp add: serve_def)
  have n: "[r1930, r1950] \<noteq> []" by simp
  have inst: "scrape_first10 ascii_only (serve mixed_page) [] =
     Inr (concat (map (\<lambda>tr. if score_shaped ascii_only (score_of tr) then []
                              else [Warn (year_of tr) (score_of tr)]) [r1930, r1950]),
          HEADER # map (\<lambda>tr. [year_of tr, winner_of tr, score_of tr, runnersup_of tr])
            [r1930, r1950])"
    by (rule score_warning_iff_unshaped
        [of "serve mixed_page" "[]" mixed_page "[r1930, r1950]" ascii_only, OF f mixed_page_rows n])
  from inst [symmetric] scrape_mixed_page [of "[]"]
  have "Inr (concat (map (\<lambda>tr. if score_shaped ascii_only (score_of tr) then []
                              else [Warn (year_of tr) (score_of tr)]) [r1930, r1950]),
          HEADER # map (\<lambda>tr. [year_of tr, winner_of tr, score_of tr, runnersup_of tr])
            [r1930, r1950]) =
        (Inr ([Warn (ustr_of ''1950'') (ustr_of ''TBD'')],
          [HEADER,
           [ustr_of ''1930'', ustr_of ''Uruguay'', [52, 8211, 50], ustr_of ''Argentina''],
           [ustr_of ''1950'', ustr_of ''Uruguay'', ustr_of ''TBD'', ustr_of ''Brazil'']])
         :: error + console_line list \<times> ustr list list)"
    by (rule trans)
  then have c: "concat (map (\<lambda>tr. if score_shaped ascii_only (score_of tr) then []
                              else [Warn (year_of tr) (score_of tr)]) [r1930, r1950]) =
             [Warn (ustr_of ''1950'') (ustr_of ''TBD'')]"
    unfolding sum.inject prod.inject by (rule conjunct1)
  have y: "year_of r1930 = ustr_of ''1930''" "score_of r1930 = [52, 8211, 50]"
    "year_of r1950 = ustr_of ''1950''" "score_of r1950 = ustr_of ''TBD''"
    using row_parts [OF row_1930] row_parts [OF row_1950] by simp_all
  have e: "(if score_shaped ascii_only [52, 8211, 50] then []
            else [Warn (ustr_of ''1930'') [52, 8211, 50]]) @
           (if score_shaped ascii_only (ustr_of ''TBD'') then []
            else [Warn (ustr_of ''1950'') (ustr_of ''TBD'')]) =
           [Warn (ustr_of ''1950'') (ustr_of ''TBD'')]"
    using c [unfolded list.map concat.simps append_Nil2 y] .
  have ne: "Warn (ustr_of ''1930'') [52, 8211, 50] \<noteq> Warn (ustr_of ''1950'') (ustr_of ''TBD'')"
    by (simp add: ustr_of_def)
  have "score_shaped ascii_only [52, 8211, 50] \<and> \<not> score_shaped ascii_only (ustr_of ''TBD'')"
    using e ne
    by (cases "score_shaped ascii_only [52, 8211, 50]";
        cases "score_shaped ascii_only (ustr_of ''TBD'')"; simp)
  then show ?thesis using scrape_mixed_page [of "[]"] by simp
qed

text \<open>
  C10. For a row whose first cell (its first child that is a \<open>th\<close> or a \<open>td\<close>) is a \<open>td\<close>,
  the year field and the winner field that \<open>scrape_first10\<close> reads are the same string.
\<close>

theorem year_is_winner_when_first_cell_td:
  assumes "first_cell tr = Some c" and "is_elem ''td'' c"
  shows "year_of tr = winner_of tr \<and> row_of tr ! 0 = row_of tr ! 1"
proof -
  have "take 1 (filter (\<lambda>k. is_elem ''th'' k \<or> is_elem ''td'' k) (children tr)) = [c] \<and>
        take 1 (filter (is_elem ''td'') (children tr)) = [c]"
    using assms unfolding first_cell_def by (rule first_cell_filters) simp
  then have "YEAR_REL_XPATH tr = WINNER_REL_XPATH tr"
    unfolding YEAR_REL_XPATH_def WINNER_REL_XPATH_def xpath_pos_first by simp
  then show ?thesis by (simp add: year_of_def winner_of_def row_of_def)
qed

theorem year_is_winner_when_first_cell_td_witness:
  "year_of td_row = ustr_of ''1930'' \<and> winner_of td_row = ustr_of ''1930'' \<and>
   row_of td_row ! 0 = row_of td_row ! 1"
proof -
  have 1: "first_cell td_row = Some (Elem ''td'' [] [Txt (ustr_of ''1930'')])"
    by (simp add: first_cell_def td_row_def)
  have 2: "is_elem ''td'' (Elem ''td'' [] [Txt (ustr_of ''1930'')])" by simp
  have "winner_of td_row = ustr_of ''1930''"
    by (simp add: winner_of_def WINNER_REL_XPATH_def td_row_def xpath_pos_def clean_eval)
  then show ?thesis using year_is_winner_when_first_cell_td [OF 1 2] by simp
qed

section \<open>The properties of main\<close>





text \<open>
  C3. The claim: \<open>main\<close> creates the directory of each output path when it is absent.
  Evaluated in an empty working directory with \<open>--values-out out/values.json\<close>: \<open>main\<close>
  creates the directory \<open>data\<close>, the one name it passes to \<open>os.makedirs\<close>, and the
  opening of \<open>out/values.json\<close> raises \<open>FileNotFoundError\<close>; no file is written.
\<close>

theorem custom_directory_not_created:
  "main ascii_only (serve short_page) custom_args empty_fs =
     (Inl (FileNotFoundError [''out'', ''values.json'']),
      \<lparr>dirs = {[''data'']}, files = Map.empty\<rparr>, [])"
  by (simp add: main_def scrape_short_page custom_args_def default_args_def empty_fs_def
      write_json_def)

end
